theory Spec2Isabelle
  imports Complex_Main
begin

section \<open>Python values used by the banner maker\<close>

text \<open>
  The program is a single Python file, \<^verbatim>\<open>final.py\<close>. Its core is the colour parser
  (\<^verbatim>\<open>hex_to_rgb\<close>, \<^verbatim>\<open>cmyk_to_rgb\<close>, \<^verbatim>\<open>parse_color_input\<close>), the band renderer
  (\<^verbatim>\<open>add_info_band\<close>) and the grid composer (\<^verbatim>\<open>merge_images\<close>).

  Python integers are unbounded and are modelled by \<^typ>\<open>int\<close>; \<^verbatim>\<open>//\<close> and \<^verbatim>\<open>%\<close> on them
  are \<^term>\<open>(div)\<close> and \<^term>\<open>(mod)\<close> (both round towards minus infinity). Strings are lists
  of 8-bit characters, read as the code points U+0000 to U+00FF. Python floats are binary64
  numbers; the finite ones are modelled by the real number they denote (the sign of zero,
  which no result of the program depends on, is dropped), and every arithmetic operation
  rounds its exact result to the nearest binary64 value, ties to even.
\<close>

datatype exn = ValueError | IndexError | ZeroDivisionError

subsection \<open>Exceptions as values\<close>

definition bind_exn :: "exn + 'a \<Rightarrow> ('a \<Rightarrow> exn + 'b) \<Rightarrow> exn + 'b" where
  "bind_exn m f = (case m of Inl e \<Rightarrow> Inl e | Inr v \<Rightarrow> f v)"

text \<open>A list comprehension \<^verbatim>\<open>[f(v) for v in values]\<close>: the first call that raises ends it.\<close>

fun map_exn :: "('a \<Rightarrow> exn + 'b) \<Rightarrow> 'a list \<Rightarrow> exn + 'b list" where
  "map_exn f [] = Inr []"
| "map_exn f (v # vs) =
     (case f v of Inl e \<Rightarrow> Inl e
      | Inr y \<Rightarrow> (case map_exn f vs of Inl e \<Rightarrow> Inl e | Inr ys \<Rightarrow> Inr (y # ys)))"

subsection \<open>String methods\<close>

definition code :: "char \<Rightarrow> nat" where
  "code c = of_char c"

text \<open>\<^verbatim>\<open>str.isspace\<close> on the first 256 code points; \<^verbatim>\<open>str.strip()\<close> removes these.\<close>

definition py_isspace :: "char \<Rightarrow> bool" where
  "py_isspace c = ((9 \<le> code c \<and> code c \<le> 13) \<or> (28 \<le> code c \<and> code c \<le> 32)
      \<or> code c = 133 \<or> code c = 160)"

definition py_strip :: "string \<Rightarrow> string" where
  "py_strip s = rev (dropWhile py_isspace (rev (dropWhile py_isspace s)))"

definition py_lower_char :: "char \<Rightarrow> char" where
  "py_lower_char c =
     (if (65 \<le> code c \<and> code c \<le> 90) \<or> (192 \<le> code c \<and> code c \<le> 222 \<and> code c \<noteq> 215)
      then char_of (code c + 32) else c)"

definition py_lower :: "string \<Rightarrow> string" where
  "py_lower s = map py_lower_char s"

definition startswith :: "string \<Rightarrow> string \<Rightarrow> bool" where
  "startswith s p = (take (length p) s = p)"

definition endswith :: "string \<Rightarrow> string \<Rightarrow> bool" where
  "endswith s p = (length p \<le> length s \<and> drop (length s - length p) s = p)"

text \<open>\<^verbatim>\<open>s.lstrip('#')\<close> removes every leading \<^verbatim>\<open>#\<close>, not only the first.\<close>

definition lstrip_hash :: "string \<Rightarrow> string" where
  "lstrip_hash s = dropWhile (\<lambda>c. c = CHR ''#'') s"

text \<open>
  A slice \<^verbatim>\<open>s[lo:hi]\<close>: a negative bound counts from the end, and bounds outside the
  string are clipped, so a slice never raises.
\<close>

definition slice_bound :: "nat \<Rightarrow> int \<Rightarrow> nat" where
  "slice_bound n i = (if i < 0 then nat (int n + i) else min (nat i) n)"

definition py_slice :: "'a list \<Rightarrow> int \<Rightarrow> int \<Rightarrow> 'a list" where
  "py_slice s lo hi =
     (let a = slice_bound (length s) lo; b = slice_bound (length s) hi
      in take (b - a) (drop a s))"

text \<open>\<^verbatim>\<open>s.split(',')\<close>: always at least one field; empty fields are kept.\<close>

fun split_comma :: "string \<Rightarrow> string list" where
  "split_comma [] = [[]]"
| "split_comma (c # cs) =
     (if c = CHR '','' then [] # split_comma cs
      else (case split_comma cs of [] \<Rightarrow> [[c]] | f # fs \<Rightarrow> (c # f) # fs))"

subsection \<open>The built-in \<^verbatim>\<open>int(text, base)\<close>\<close>

text \<open>
  \<^verbatim>\<open>int\<close> skips white space at both ends (a slightly smaller set than \<^verbatim>\<open>strip\<close>: the
  separators U+001C to U+001F are not skipped), reads an optional sign, for base 16 an
  optional \<^verbatim>\<open>0x\<close> that one underscore may follow, and then digits of the base, where single
  underscores may stand between digits. Anything else raises \<^verbatim>\<open>ValueError\<close>.
\<close>

definition num_space :: "char \<Rightarrow> bool" where
  "num_space c = ((9 \<le> code c \<and> code c \<le> 13) \<or> code c = 32 \<or> code c = 133 \<or> code c = 160)"

definition num_strip :: "string \<Rightarrow> string" where
  "num_strip s = rev (dropWhile num_space (rev (dropWhile num_space s)))"

definition digit_value :: "char \<Rightarrow> int" where
  "digit_value c =
     (if 48 \<le> code c \<and> code c \<le> 57 then int (code c) - 48
      else if 97 \<le> code c \<and> code c \<le> 122 then int (code c) - 87
      else if 65 \<le> code c \<and> code c \<le> 90 then int (code c) - 55
      else 37)"

fun double_underscore :: "string \<Rightarrow> bool" where
  "double_underscore (a # b # cs) =
     ((a = CHR ''_'' \<and> b = CHR ''_'') \<or> double_underscore (b # cs))"
| "double_underscore _ = False"

definition int_digits :: "int \<Rightarrow> string \<Rightarrow> exn + int" where
  "int_digits b s =
     (if s = [] \<or> hd s = CHR ''_'' \<or> last s = CHR ''_'' \<or> double_underscore s
      then Inl ValueError
      else (let ds = filter (\<lambda>c. c \<noteq> CHR ''_'') s
            in if list_all (\<lambda>c. digit_value c < b) ds
               then Inr (foldl (\<lambda>a c. a * b + digit_value c) 0 ds)
               else Inl ValueError))"

definition split_sign :: "string \<Rightarrow> bool \<times> string" where
  "split_sign s =
     (case s of [] \<Rightarrow> (False, [])
      | c # cs \<Rightarrow> if c = CHR ''-'' then (True, cs)
                  else if c = CHR ''+'' then (False, cs) else (False, s))"

definition py_int :: "int \<Rightarrow> string \<Rightarrow> exn + int" where
  "py_int b s =
     (let (neg, u) = split_sign (num_strip s);
          v = (if b = 16 \<and> (take 2 u = ''0x'' \<or> take 2 u = ''0X'')
               then (if take 1 (drop 2 u) = ''_'' then drop 3 u else drop 2 u)
               else u)
      in bind_exn (int_digits b v) (\<lambda>n. Inr (if neg then - n else n)))"

subsection \<open>Binary64 arithmetic\<close>

text \<open>The number of binary digits of a positive integer.\<close>

function bitlength :: "int \<Rightarrow> int" where
  "bitlength n = (if n \<le> 0 then 0 else 1 + bitlength (n div 2))"
  by pat_completeness auto
termination
  by (relation "measure nat") auto

declare bitlength.simps [simp del]

text \<open>For positive \<open>x\<close>, the exponent \<open>e\<close> with \<open>2 powi e \<le> x < 2 powi (e + 1)\<close>.\<close>

definition expo :: "real \<Rightarrow> int" where
  "expo x = (if 1 \<le> x then bitlength \<lfloor>x\<rfloor> - 1 else - bitlength (\<lceil>1 / x\<rceil> - 1))"

text \<open>Rounding to the nearest integer, a tie going to the even neighbour.\<close>

definition rhe :: "real \<Rightarrow> int" where
  "rhe x =
     (let f = \<lfloor>x\<rfloor>; d = x - of_int f
      in if d < 1 / 2 then f else if 1 / 2 < d then f + 1
         else if even f then f else f + 1)"

text \<open>
  Rounding to binary64: 53 significant bits, and no bit below \<open>2 powi (-1074)\<close> (the
  subnormal numbers). The result is not yet checked for overflow; a result of magnitude
  \<open>2 powi 1024\<close> or more stands for an infinity.
\<close>

definition rnd :: "real \<Rightarrow> real" where
  "rnd x =
     (if x = 0 then 0
      else (let p = max (expo \<bar>x\<bar> - 52) (- 1074)
            in of_int (rhe (x / 2 powi p)) * 2 powi p))"

definition fsub :: "real \<Rightarrow> real \<Rightarrow> real" where
  "fsub a b = rnd (a - b)"

definition fmul :: "real \<Rightarrow> real \<Rightarrow> real" where
  "fmul a b = rnd (a * b)"

definition fdiv :: "real \<Rightarrow> real \<Rightarrow> real" where
  "fdiv a b = rnd (a / b)"

text \<open>\<^verbatim>\<open>math.sqrt\<close> is the correctly rounded square root.\<close>

definition fsqrt :: "real \<Rightarrow> real" where
  "fsqrt a = rnd (sqrt a)"

text \<open>\<^verbatim>\<open>int(x)\<close> on a finite float truncates towards zero.\<close>

definition trunc :: "real \<Rightarrow> int" where
  "trunc x = (if 0 \<le> x then \<lfloor>x\<rfloor> else \<lceil>x\<rceil>)"

subsection \<open>The built-in \<^verbatim>\<open>float(text)\<close>\<close>

datatype pyfloat = Finite real | PInf | NInf | NaN

definition is_digit :: "char \<Rightarrow> bool" where
  "is_digit c = (48 \<le> code c \<and> code c \<le> 57)"

text \<open>In a float literal an underscore must stand between two decimal digits.\<close>

fun underscores_ok :: "char \<Rightarrow> string \<Rightarrow> bool" where
  "underscores_ok prev [] = (prev \<noteq> CHR ''_'')"
| "underscores_ok prev (c # cs) =
     ((if c = CHR ''_'' then is_digit prev
       else if prev = CHR ''_'' then is_digit c else True)
      \<and> underscores_ok c cs)"

definition digits_int :: "string \<Rightarrow> int" where
  "digits_int ds = foldl (\<lambda>a c. a * 10 + digit_value c) 0 ds"

text \<open>
  The exact value of \<^verbatim>\<open>digits [. digits] [e [sign] digits]\<close> or \<^verbatim>\<open>. digits ...\<close>; at
  least one digit before the exponent, at least one in it, nothing after it.
\<close>

definition parse_decimal :: "string \<Rightarrow> real option" where
  "parse_decimal v =
     (let ip = takeWhile is_digit v; r1 = dropWhile is_digit v;
          (fp, r2) = (case r1 of [] \<Rightarrow> ([], [])
                      | c # r \<Rightarrow> if c = CHR ''.'' then (takeWhile is_digit r, dropWhile is_digit r)
                                 else ([], r1));
          m = of_int (digits_int (ip @ fp))
      in if ip = [] \<and> fp = [] then None
         else (case r2 of [] \<Rightarrow> Some (m * 10 powi (- int (length fp)))
               | c # r \<Rightarrow>
                   if c = CHR ''e'' \<or> c = CHR ''E''
                   then (let (neg, ds) = split_sign r
                         in if ds \<noteq> [] \<and> list_all is_digit ds
                            then Some (m * 10 powi ((if neg then - digits_int ds
                                                     else digits_int ds) - int (length fp)))
                            else None)
                   else None))"

text \<open>
  A decimal literal denotes the nearest binary64 value; one that rounds to \<open>2 powi 1024\<close>
  or beyond denotes an infinity (no exception is raised).
\<close>

definition to_double :: "real \<Rightarrow> pyfloat" where
  "to_double q =
     (let r = rnd q
      in if r \<noteq> 0 \<and> 1024 \<le> expo \<bar>r\<bar> then (if 0 < r then PInf else NInf) else Finite r)"

definition py_float :: "string \<Rightarrow> exn + pyfloat" where
  "py_float s =
     (let t = num_strip s
      in if \<not> underscores_ok (CHR 0x00) t then Inl ValueError
         else (let (neg, v) = split_sign (filter (\<lambda>c. c \<noteq> CHR ''_'') t);
                   w = py_lower v
               in if w = ''inf'' \<or> w = ''infinity'' then Inr (if neg then NInf else PInf)
                  else if w = ''nan'' then Inr NaN
                  else (case parse_decimal v of None \<Rightarrow> Inl ValueError
                        | Some q \<Rightarrow> Inr (to_double (if neg then - q else q)))))"

text \<open>\<^verbatim>\<open>lo <= val <= hi\<close>: every comparison with a NaN is false.\<close>

fun in_range :: "real \<Rightarrow> real \<Rightarrow> pyfloat \<Rightarrow> bool" where
  "in_range lo hi (Finite v) = (lo \<le> v \<and> v \<le> hi)"
| "in_range lo hi _ = False"

fun fval :: "pyfloat \<Rightarrow> real" where
  "fval (Finite v) = v"
| "fval _ = 0"

section \<open>The colour parser\<close>

type_synonym rgb = "int \<times> int \<times> int"

text \<open>
  \<^verbatim>\<open>hex_color = hex_color.lstrip('#')\<close>
  \<^verbatim>\<open>return tuple(int(hex_color[i:i+2], 16) for i in (0, 2, 4))\<close>
\<close>

definition hex_to_rgb :: "string \<Rightarrow> exn + rgb" where
  "hex_to_rgb hex_color =
     (let h = lstrip_hash hex_color
      in bind_exn (py_int 16 (py_slice h 0 2)) (\<lambda>r.
         bind_exn (py_int 16 (py_slice h 2 4)) (\<lambda>g.
         bind_exn (py_int 16 (py_slice h 4 6)) (\<lambda>b. Inr (r, g, b)))))"

text \<open>
  \<^verbatim>\<open>c, m, y, k = c/100, m/100, y/100, k/100\<close>
  \<^verbatim>\<open>r = 255 * (1 - c) * (1 - k)\<close> (and likewise \<^verbatim>\<open>g\<close>, \<^verbatim>\<open>b\<close>), \<^verbatim>\<open>return (int(r), int(g), int(b))\<close>.
  Python multiplies from the left, and every operation rounds. The function is applied to
  finite floats between 0 and 100 only.
\<close>

definition cmyk_channel :: "real \<Rightarrow> real \<Rightarrow> int" where
  "cmyk_channel x k = trunc (fmul (fmul 255 (fsub 1 (fdiv x 100))) (fsub 1 (fdiv k 100)))"

definition cmyk_to_rgb :: "real \<Rightarrow> real \<Rightarrow> real \<Rightarrow> real \<Rightarrow> rgb" where
  "cmyk_to_rgb c m y k = (cmyk_channel c k, cmyk_channel m k, cmyk_channel y k)"

definition all_hex_chars :: "string \<Rightarrow> bool" where
  "all_hex_chars s = list_all (\<lambda>c. c \<in> set ''0123456789abcdef'') s"

text \<open>The two bodies that the RGB branches and the CMYK branches share.\<close>

definition rgb_values :: "string list \<Rightarrow> exn + rgb option" where
  "rgb_values values =
     (if length values = 3
      then bind_exn (map_exn (\<lambda>v. py_int 10 (py_strip v)) values) (\<lambda>ns.
             if list_all (\<lambda>val. 0 \<le> val \<and> val \<le> 255) ns
             then Inr (Some (ns ! 0, ns ! 1, ns ! 2)) else Inr None)
      else Inr None)"

definition cmyk_values :: "string list \<Rightarrow> exn + rgb option" where
  "cmyk_values values =
     (if length values = 4
      then bind_exn (map_exn (\<lambda>v. py_float (py_strip v)) values) (\<lambda>fs.
             if list_all (in_range 0 100) fs
             then Inr (Some (cmyk_to_rgb (fval (fs ! 0)) (fval (fs ! 1)) (fval (fs ! 2))
                                (fval (fs ! 3))))
             else Inr None)
      else Inr None)"

text \<open>
  The body of the \<^verbatim>\<open>try\<close> statement: an \<^verbatim>\<open>if\<close>/\<^verbatim>\<open>elif\<close> chain of five branches, the first
  whose condition holds being the only one run. \<open>Inr None\<close> is falling out of the chain
  without a \<^verbatim>\<open>return\<close>.
\<close>

definition parse_body :: "string \<Rightarrow> exn + rgb option" where
  "parse_body color_input =
     (if startswith color_input ''#'' \<or> (length color_input = 6 \<and> all_hex_chars color_input)
      then bind_exn (hex_to_rgb color_input) (\<lambda>t. Inr (Some t))
      else if startswith color_input ''rgb('' \<and> endswith color_input '')''
      then rgb_values (split_comma (py_slice color_input 4 (- 1)))
      else if CHR '','' \<in> set color_input \<and> \<not> startswith color_input ''cmyk''
      then rgb_values (split_comma color_input)
      else if startswith color_input ''cmyk('' \<and> endswith color_input '')''
      then cmyk_values (split_comma (py_slice color_input 5 (- 1)))
      else if CHR '','' \<in> set color_input
      then cmyk_values (split_comma color_input)
      else Inr None)"

text \<open>
  \<^verbatim>\<open>except (ValueError, IndexError): pass\<close> and then \<^verbatim>\<open>return None\<close>; any other exception
  would leave the function (\<open>Inl\<close>).
\<close>

definition parse_color_input :: "string \<Rightarrow> exn + rgb option" where
  "parse_color_input color_input =
     (case parse_body (py_lower (py_strip color_input)) of
        Inl e \<Rightarrow> if e = ValueError \<or> e = IndexError then Inr None else Inl e
      | Inr r \<Rightarrow> Inr r)"

section \<open>Images\<close>

text \<open>
  An image is its width and its rows of pixels, top row first; the height is the number
  of rows. The pixel type is left open: the program never looks inside a pixel, only the
  imaging library does. What the library computes per pixel, and everything it reads from
  files, is gathered in a record of library functions that the program is run against.
  Library calls that the program does not guard are taken to succeed, except where a
  branch below says otherwise.
\<close>

record 'p image =
  width :: nat
  pixels :: "'p list list"

definition height :: "'p image \<Rightarrow> nat" where
  "height img = length (pixels img)"

definition pixel :: "'p image \<Rightarrow> nat \<Rightarrow> nat \<Rightarrow> 'p" where
  "pixel img i j = pixels img ! j ! i"

text \<open>The image of the given size whose pixel in column \<open>i\<close> of row \<open>j\<close> is \<open>f i j\<close>.\<close>

definition mk_image :: "nat \<Rightarrow> nat \<Rightarrow> (nat \<Rightarrow> nat \<Rightarrow> 'p) \<Rightarrow> 'p image" where
  "mk_image w h f = \<lparr>width = w, pixels = map (\<lambda>j. map (\<lambda>i. f i j) [0..<w]) [0..<h]\<rparr>"

text \<open>Every row of an image has the image's width.\<close>

definition well_formed :: "'p image \<Rightarrow> bool" where
  "well_formed img = list_all (\<lambda>row. length row = width img) (pixels img)"

record 'p pil =
  blank :: 'p
  mask_px :: "'p \<Rightarrow> 'p \<Rightarrow> 'p"
  over_px :: "'p \<Rightarrow> 'p \<Rightarrow> 'p"
  resize_px :: "'p image \<Rightarrow> nat \<times> nat \<Rightarrow> nat \<Rightarrow> nat \<Rightarrow> 'p"
  load :: "string \<Rightarrow> int \<times> int \<Rightarrow> 'p image option"
  band_px :: "nat \<times> nat \<Rightarrow> int \<Rightarrow> rgb \<Rightarrow> nat \<Rightarrow> nat \<Rightarrow> 'p"

text \<open>
  \<^item> \<open>blank\<close>: the pixel \<^verbatim>\<open>(0, 0, 0, 0)\<close> that \<^verbatim>\<open>Image.new('RGBA', size)\<close> fills with;
  \<^item> \<open>mask_px s d\<close>: what \<^verbatim>\<open>paste(im, box, im)\<close> leaves where source pixel \<open>s\<close> meets
    destination pixel \<open>d\<close> (the source's own alpha is the mask);
  \<^item> \<open>over_px s d\<close>: one pixel of \<^verbatim>\<open>Image.alpha_composite(dst, src)\<close>;
  \<^item> \<open>resize_px img size i j\<close>: the pixel \<open>(i, j)\<close> of \<^verbatim>\<open>img.resize(size)\<close>;
  \<^item> \<open>load path (w, h)\<close>: \<^verbatim>\<open>Image.open(path)\<close>, \<^verbatim>\<open>check_image_mode\<close> and
    \<^verbatim>\<open>thumbnail((w, h), LANCZOS)\<close>, or \<open>None\<close> when one of them raises;
  \<^item> \<open>band_px size total_files theme_color i j\<close>: the pixel \<open>(i, j)\<close> of the band once the
    rounded rectangle and the six texts are drawn on a transparent image of that size.
\<close>

definition new_image :: "'p \<Rightarrow> nat \<Rightarrow> nat \<Rightarrow> 'p image" where
  "new_image b w h = mk_image w h (\<lambda>i j. b)"

text \<open>\<^verbatim>\<open>img.crop((left, upper, right, lower))\<close>; outside the image the crop is blank.\<close>

definition crop :: "'p \<Rightarrow> 'p image \<Rightarrow> int \<times> int \<times> int \<times> int \<Rightarrow> 'p image" where
  "crop b img box =
     (case box of (left, upper, right, lower) \<Rightarrow>
        mk_image (nat (right - left)) (nat (lower - upper))
          (\<lambda>i j. if 0 \<le> left + int i \<and> left + int i < int (width img)
                      \<and> 0 \<le> upper + int j \<and> upper + int j < int (height img)
                   then pixel img (nat (left + int i)) (nat (upper + int j)) else b))"

text \<open>
  \<^verbatim>\<open>dst.paste(src, (x, y))\<close> with \<open>f = (\<lambda>s d. s)\<close>, \<^verbatim>\<open>dst.paste(src, (x, y), src)\<close> with
  \<open>f = mask_px\<close>. The part of the source that falls outside the destination is dropped.
\<close>

definition paste :: "('p \<Rightarrow> 'p \<Rightarrow> 'p) \<Rightarrow> 'p image \<Rightarrow> int \<times> int \<Rightarrow> 'p image \<Rightarrow> 'p image" where
  "paste f src pos dst =
     (case pos of (x, y) \<Rightarrow>
        mk_image (width dst) (height dst)
          (\<lambda>i j. if x \<le> int i \<and> int i < x + int (width src)
                      \<and> y \<le> int j \<and> int j < y + int (height src)
                   then f (pixel src (nat (int i - x)) (nat (int j - y))) (pixel dst i j)
                   else pixel dst i j))"

definition replace_px :: "'p \<Rightarrow> 'p \<Rightarrow> 'p" where
  "replace_px s d = s"

text \<open>\<^verbatim>\<open>Image.alpha_composite(dst, src)\<close>, applied to two images of one size.\<close>

definition alpha_composite :: "('p \<Rightarrow> 'p \<Rightarrow> 'p) \<Rightarrow> 'p image \<Rightarrow> 'p image \<Rightarrow> 'p image" where
  "alpha_composite over dst src =
     mk_image (width dst) (height dst) (\<lambda>i j. over (pixel src i j) (pixel dst i j))"

definition resize :: "'p pil \<Rightarrow> 'p image \<Rightarrow> nat \<times> nat \<Rightarrow> 'p image" where
  "resize L img sz = mk_image (fst sz) (snd sz) (resize_px L img sz)"

section \<open>The band renderer\<close>

text \<open>
  \<^verbatim>\<open>band_height = int(height * 0.20)\<close>: the height is converted to a float and multiplied by
  the float nearest to one fifth.
\<close>

definition band_height_of :: "int \<Rightarrow> int" where
  "band_height_of h = trunc (fmul (rnd (of_int h)) (rnd (20 / 100)))"

text \<open>
  \<^verbatim>\<open>position = (height - band_height) // 2\<close>
  \<^verbatim>\<open>final_image = Image.new('RGBA', (width, height))\<close>
  \<^verbatim>\<open>final_image.paste(image.crop((0, 0, width, position)), (0, 0))\<close>
  \<^verbatim>\<open>final_image.paste(band, (0, position), band)\<close>
  \<^verbatim>\<open>final_image.paste(image.crop((0, position, width, height)), (0, position + band_height))\<close>
\<close>

definition add_info_band :: "'p pil \<Rightarrow> 'p image \<Rightarrow> int \<Rightarrow> rgb \<Rightarrow> 'p image" where
  "add_info_band L img file_count theme_color =
     (let w = width img; h = height img;
          band_height = band_height_of (int h);
          total_files = file_count * 3;
          band = mk_image w (nat band_height) (band_px L (w, nat band_height) total_files theme_color);
          position = (int h - band_height) div 2;
          final0 = new_image (blank L) w h;
          final1 = paste replace_px (crop (blank L) img (0, 0, int w, position)) (0, 0) final0;
          final2 = paste (mask_px L) band (0, position) final1;
          final3 = paste replace_px (crop (blank L) img (0, position, int w, int h))
                     (0, position + band_height) final2
      in final3)"

section \<open>The grid composer\<close>

definition border_spacing :: int where
  "border_spacing = 10"

definition image_spacing :: int where
  "image_spacing = 10"

text \<open>
  \<^verbatim>\<open>math.sqrt\<close> converts the count to a float first; \<^verbatim>\<open>total_images / columns\<close> is the
  correctly rounded quotient of the two integers; \<^verbatim>\<open>math.ceil\<close> returns an integer. (A list
  has fewer than \<open>2 ^ 63\<close> elements, so the conversion cannot overflow.)
\<close>

definition grid_columns :: "int \<Rightarrow> int" where
  "grid_columns total_images =
     (if total_images \<le> 4 then 2
      else if total_images \<le> 9 then 3
      else if total_images \<le> 16 then 4
      else \<lceil>fsqrt (rnd (of_int total_images))\<rceil>)"

definition grid_rows :: "int \<Rightarrow> int" where
  "grid_rows total_images = \<lceil>rnd (of_int total_images / of_int (grid_columns total_images))\<rceil>"

definition cell_width :: "int \<Rightarrow> int \<Rightarrow> int" where
  "cell_width image_size columns =
     (image_size - 2 * border_spacing - (columns - 1) * image_spacing) div columns"

text \<open>
  \<^verbatim>\<open>image_height = (usable_size - (rows - 1) * image_spacing) // rows\<close>, and under
  \<^verbatim>\<open>if include_band:\<close> the minimum of that and the height left once \<^verbatim>\<open>band_area\<close> is taken
  off the canvas.
\<close>

definition cell_height :: "int \<Rightarrow> int \<Rightarrow> bool \<Rightarrow> int" where
  "cell_height image_size rows include_band =
     (let usable_size = image_size - 2 * border_spacing;
          image_height = (usable_size - (rows - 1) * image_spacing) div rows
      in if include_band
         then (let band_area = band_height_of image_size;
                   content_height = image_size - band_area
               in min image_height
                    ((content_height - 2 * border_spacing - (rows - 1) * image_spacing) div rows))
         else image_height)"

datatype event = NoImagesFound | LoadFailed string

text \<open>The loop over \<^verbatim>\<open>input_paths\<close>: a path that fails to load is reported and skipped.\<close>

fun load_all :: "'p pil \<Rightarrow> int \<times> int \<Rightarrow> string list \<Rightarrow> 'p image list \<times> event list" where
  "load_all L sz [] = ([], [])"
| "load_all L sz (path # paths) =
     (case load_all L sz paths of (imgs, evs) \<Rightarrow>
        (case load L path sz of None \<Rightarrow> (imgs, LoadFailed path # evs)
         | Some img \<Rightarrow> (img # imgs, evs)))"

text \<open>
  The random source is a sequence of natural numbers; \<^verbatim>\<open>random.choice(seq)\<close> uses up the
  first one to pick an index below \<^verbatim>\<open>len(seq)\<close>, and raises \<^verbatim>\<open>IndexError\<close> on an empty
  sequence.
\<close>

definition choice :: "(nat \<Rightarrow> nat) \<Rightarrow> 'a list \<Rightarrow> exn + ('a \<times> (nat \<Rightarrow> nat))" where
  "choice g xs =
     (if xs = [] then Inl IndexError
      else Inr (xs ! (g 0 mod length xs), (\<lambda>i. g (Suc i))))"

text \<open>
  \<^verbatim>\<open>for _ in range(rows * columns - len(placed_images)):\<close>
  \<^verbatim>\<open>    placed_images.append(random.choice(placed_images).copy())\<close>
  The number of rounds is fixed before the first one.
\<close>

fun pad :: "nat \<Rightarrow> 'a list \<Rightarrow> (nat \<Rightarrow> nat) \<Rightarrow> exn + ('a list \<times> (nat \<Rightarrow> nat))" where
  "pad 0 placed g = Inr (placed, g)"
| "pad (Suc k) placed g =
     (case choice g placed of Inl e \<Rightarrow> Inl e
      | Inr (img, g') \<Rightarrow> pad k (placed @ [img]) g')"

text \<open>Where the image with index \<open>idx\<close> is pasted: its cell's corner plus the centring offset.\<close>

definition cell_of :: "int \<Rightarrow> nat \<Rightarrow> int \<times> int" where
  "cell_of columns idx = (int idx div columns, int idx mod columns)"

definition place :: "int \<Rightarrow> int \<Rightarrow> int \<Rightarrow> nat \<Rightarrow> 'p image \<Rightarrow> int \<times> int" where
  "place columns image_width image_height idx img =
     (case cell_of columns idx of (row, col) \<Rightarrow>
        (let x = border_spacing + col * (image_width + image_spacing);
             y = border_spacing + row * (image_height + image_spacing);
             offset_x = (image_width - int (width img)) div 2;
             offset_y = (image_height - int (height img)) div 2
         in (x + offset_x, y + offset_y)))"

definition paste_grid ::
  "'p pil \<Rightarrow> int \<Rightarrow> int \<Rightarrow> int \<Rightarrow> 'p image list \<Rightarrow> 'p image \<Rightarrow> 'p image" where
  "paste_grid L columns image_width image_height placed canvas =
     foldl (\<lambda>cv (idx, img). paste (mask_px L) img (place columns image_width image_height idx img) cv)
       canvas (zip [0..<length placed] placed)"

definition png_count :: "string list \<Rightarrow> int" where
  "png_count input_paths = int (length (filter (\<lambda>f. endswith (py_lower f) ''.png'') input_paths))"

datatype 'p outcome = Returned | Raised exn | Saved string "'p image"

record 'p run =
  outcome :: "'p outcome"
  printed :: "event list"
  rng :: "nat \<Rightarrow> nat"

text \<open>
  What follows the padding: the grid is pasted, laid over the background, the band is
  added under \<^verbatim>\<open>if include_band and theme_color:\<close> (a colour tuple is never falsy, so the
  test fails only for \<^verbatim>\<open>None\<close>), the watermark is laid over the result, and the file is saved.
\<close>

definition finish ::
  "'p pil \<Rightarrow> int \<Rightarrow> int \<Rightarrow> int \<Rightarrow> int \<Rightarrow> int \<Rightarrow> 'p image \<Rightarrow> 'p image \<Rightarrow> rgb option \<Rightarrow> bool
     \<Rightarrow> 'p image list \<Rightarrow> 'p image" where
  "finish L image_size columns image_width image_height pngs background watermark theme_color
      include_band placed =
     (let sz = (nat image_size, nat image_size);
          grid = paste_grid L columns image_width image_height placed
                   (new_image (blank L) (nat image_size) (nat image_size));
          composed = alpha_composite (over_px L) (resize L background sz) grid;
          banded = (case theme_color of None \<Rightarrow> composed
                    | Some colour \<Rightarrow> if include_band then add_info_band L composed pngs colour
                                      else composed)
      in alpha_composite (over_px L) banded (resize L watermark sz))"

text \<open>
  \<^verbatim>\<open>merge_images\<close>. \<^verbatim>\<open>Image.new\<close> raises \<^verbatim>\<open>ValueError\<close> for a negative size, and \<^verbatim>\<open>//\<close>
  raises \<^verbatim>\<open>ZeroDivisionError\<close> for a zero divisor; nothing in the function catches either,
  nor the \<^verbatim>\<open>IndexError\<close> of \<^verbatim>\<open>random.choice\<close>.
\<close>

definition merge_images ::
  "'p pil \<Rightarrow> (nat \<Rightarrow> nat) \<Rightarrow> string list \<Rightarrow> int \<Rightarrow> 'p image \<Rightarrow> 'p image \<Rightarrow> string
     \<Rightarrow> rgb option \<Rightarrow> bool \<Rightarrow> 'p run" where
  "merge_images L g input_paths image_size background watermark output_folder theme_color
      include_band =
     (if input_paths = [] then \<lparr>outcome = Returned, printed = [NoImagesFound], rng = g\<rparr>
      else
        (let total_images = int (length input_paths);
             columns = grid_columns total_images;
             rows = grid_rows total_images
         in if columns = 0 \<or> rows = 0
            then \<lparr>outcome = Raised ZeroDivisionError, printed = [], rng = g\<rparr>
            else if image_size < 0
            then \<lparr>outcome = Raised ValueError, printed = [], rng = g\<rparr>
            else
              (let image_width = cell_width image_size columns;
                   image_height = cell_height image_size rows include_band
               in case load_all L (image_width, image_height) input_paths of (loaded, evs) \<Rightarrow>
                    (case pad (nat (rows * columns - int (length loaded))) loaded g of
                       Inl e \<Rightarrow> \<lparr>outcome = Raised e, printed = evs, rng = g\<rparr>
                     | Inr (placed, g') \<Rightarrow>
                         \<lparr>outcome = Saved output_folder
                            (finish L image_size columns image_width image_height
                               (png_count input_paths) background watermark theme_color
                               include_band placed),
                          printed = evs, rng = g'\<rparr>))))"

text \<open>
  The loop of the main program over the folders: \<^verbatim>\<open>glob\<close> lists the files of a folder, and
  \<^verbatim>\<open>merge_images\<close> is called with the size 2000. An exception that leaves \<^verbatim>\<open>merge_images\<close> ends
  the program, so no later folder is processed.
\<close>

fun process_folders ::
  "'p pil \<Rightarrow> (string \<Rightarrow> string list) \<Rightarrow> 'p image \<Rightarrow> 'p image \<Rightarrow> string \<Rightarrow> rgb option \<Rightarrow> bool
     \<Rightarrow> (nat \<Rightarrow> nat) \<Rightarrow> string list \<Rightarrow> 'p run list" where
  "process_folders L glob background watermark output_folder theme_color include_band g [] = []"
| "process_folders L glob background watermark output_folder theme_color include_band g
      (folder # folders) =
     (let r = merge_images L g (glob folder) 2000 background watermark output_folder theme_color
                include_band
      in case outcome r of
           Raised e \<Rightarrow> [r]
         | Returned \<Rightarrow> r # process_folders L glob background watermark output_folder theme_color
                            include_band (rng r) folders
         | Saved path img \<Rightarrow> r # process_folders L glob background watermark output_folder
                            theme_color include_band (rng r) folders)"

section \<open>A small instance of the library\<close>

text \<open>
  Pixels are natural numbers, 0 being the transparent one: a masked paste and a composite
  leave the destination where the source is 0 and put the source elsewhere. Every path
  loads as a one-pixel image holding the length of its name, except \<^verbatim>\<open>bad.png\<close>, which fails;
  the band is filled with 7, and a resized image with the top left pixel of its source.
  The instance only serves to run the definitions above on concrete inputs.
\<close>

definition demo_over :: "nat \<Rightarrow> nat \<Rightarrow> nat" where
  "demo_over s d = (if s = 0 then d else s)"

definition demo_resize :: "nat image \<Rightarrow> nat \<times> nat \<Rightarrow> nat \<Rightarrow> nat \<Rightarrow> nat" where
  "demo_resize img sz i j = pixel img 0 0"

definition demo_load :: "string \<Rightarrow> int \<times> int \<Rightarrow> nat image option" where
  "demo_load path sz =
     (if path = ''bad.png'' then None else Some \<lparr>width = 1, pixels = [[length path]]\<rparr>)"

definition demo_band :: "nat \<times> nat \<Rightarrow> int \<Rightarrow> rgb \<Rightarrow> nat \<Rightarrow> nat \<Rightarrow> nat" where
  "demo_band sz total_files theme_color i j = 7"

definition demo_pil :: "nat pil" where
  "demo_pil = \<lparr>blank = 0, mask_px = demo_over, over_px = demo_over, resize_px = demo_resize,
                load = demo_load, band_px = demo_band\<rparr>"

text \<open>An image of 25 rows of five pixels, the row \<open>j\<close> (counted from 0) holding \<open>j + 1\<close>.\<close>

definition striped :: "nat image" where
  "striped = \<lparr>width = 5, pixels = map (replicate 5) [1, 2, 3, 4, 5, 6, 7, 8, 9, 10, 11, 12, 13,
       14, 15, 16, 17, 18, 19, 20, 21, 22, 23, 24, 25]\<rparr>"

definition no_files :: "string \<Rightarrow> string list" where
  "no_files folder = []"

definition first_draws :: "nat \<Rightarrow> nat" where
  "first_draws i = 0"

definition other_draws :: "nat \<Rightarrow> nat" where
  "other_draws i = 1"

definition one_pixel :: "nat image" where
  "one_pixel = \<lparr>width = 1, pixels = [[0]]\<rparr>"


section \<open>Properties of binary64 rounding\<close>

text \<open>
  What the proofs below need of binary64 arithmetic: rounding is exact on the integers
  below \<open>2 ^ 53\<close>, never crosses an integer, and changes a number of the normal range
  by at most the fraction \<open>2 ^ 53\<close> of it.
\<close>


lemma bitlength_nonneg: "0 \<le> bitlength n"
proof (induction n rule: bitlength.induct)
  case (1 n)
  then show ?case by (subst bitlength.simps) auto
qed

lemma bitlength_step: "0 < n \<Longrightarrow> bitlength n = 1 + bitlength (n div 2)"
  by (subst bitlength.simps) simp

lemma bitlength_pos: "0 < n \<Longrightarrow> 0 < bitlength n"
  using bitlength_nonneg [of "n div 2"] by (simp add: bitlength_step)

lemma bitlength_bounds:
  "0 < n \<Longrightarrow> 2 ^ nat (bitlength n - 1) \<le> n \<and> n < 2 ^ nat (bitlength n)"
proof (induction n rule: bitlength.induct)
  case (1 n)
  show ?case
  proof (cases "n = 1")
    case True
    have "bitlength 1 = 1"
      by (simp add: bitlength.simps [of 1] bitlength.simps [of 0])
    with True show ?thesis by simp
  next
    case False
    with "1.prems" have h: "0 < n div 2" by simp
    from "1.IH" h "1.prems"
    have ih: "2 ^ nat (bitlength (n div 2) - 1) \<le> n div 2" "n div 2 < 2 ^ nat (bitlength (n div 2))"
      by auto
    have b: "bitlength n = 1 + bitlength (n div 2)"
      using "1.prems" by (rule bitlength_step)
    have p: "0 < bitlength (n div 2)"
      using h by (rule bitlength_pos)
    have e: "nat (bitlength n) = Suc (nat (bitlength (n div 2)))"
      "nat (bitlength n - 1) = Suc (nat (bitlength (n div 2) - 1))"
      using b p by auto
    show ?thesis
      unfolding e using ih by auto
  qed
qed

lemma expo_lower: assumes "0 < x" shows "2 powi (expo x) \<le> x"
proof (cases "1 \<le> x")
  case True
  then have f: "0 < \<lfloor>x\<rfloor>" by simp
  from bitlength_bounds [OF f] have "(2::int) ^ nat (bitlength \<lfloor>x\<rfloor> - 1) \<le> \<lfloor>x\<rfloor>" by simp
  then have "(2::real) ^ nat (bitlength \<lfloor>x\<rfloor> - 1) \<le> of_int \<lfloor>x\<rfloor>"
    by (metis of_int_le_iff of_int_numeral of_int_power)
  also have "\<dots> \<le> x" by simp
  finally have "(2::real) ^ nat (bitlength \<lfloor>x\<rfloor> - 1) \<le> x" .
  moreover have "0 \<le> bitlength \<lfloor>x\<rfloor> - 1" using bitlength_pos [OF f] by simp
  ultimately show ?thesis using True by (simp add: expo_def power_int_def)
next
  case False
  define N where "N = \<lceil>1 / x\<rceil>"
  define b where "b = bitlength (N - 1)"
  have x1: "1 < 1 / x" using False assms by simp
  then have N2: "0 < N - 1" unfolding N_def by linarith
  have bpos: "0 < b" unfolding b_def using N2 by (rule bitlength_pos)
  from bitlength_bounds [OF N2] have "N - 1 < 2 ^ nat b" by (simp add: b_def)
  then have "N \<le> 2 ^ nat b" by simp
  then have "(of_int N :: real) \<le> 2 ^ nat b"
    by (metis of_int_le_iff of_int_numeral of_int_power)
  moreover have "1 / x \<le> of_int N" unfolding N_def by simp
  ultimately have "1 / x \<le> 2 ^ nat b" by linarith
  then have "1 / 2 ^ nat b \<le> x" using assms
    by (simp add: field_simps)
  moreover have "expo x = - b" using False by (simp add: expo_def b_def N_def)
  ultimately show ?thesis using bpos
    by (simp add: power_int_def power_inverse [symmetric] inverse_eq_divide power_divide)
qed

lemma expo_upper: assumes "0 < x" shows "x < 2 powi (expo x + 1)"
proof (cases "1 \<le> x")
  case True
  then have f: "0 < \<lfloor>x\<rfloor>" by simp
  from bitlength_bounds [OF f] have "\<lfloor>x\<rfloor> + 1 \<le> 2 ^ nat (bitlength \<lfloor>x\<rfloor>)" by simp
  then have "(of_int (\<lfloor>x\<rfloor> + 1) :: real) \<le> 2 ^ nat (bitlength \<lfloor>x\<rfloor>)"
    by (metis of_int_le_iff of_int_numeral of_int_power)
  moreover have "x < of_int (\<lfloor>x\<rfloor> + 1)" by linarith
  ultimately have "x < 2 ^ nat (bitlength \<lfloor>x\<rfloor>)" by linarith
  moreover have "0 < bitlength \<lfloor>x\<rfloor>" using f by (rule bitlength_pos)
  ultimately show ?thesis using True by (simp add: expo_def power_int_def)
next
  case False
  define N where "N = \<lceil>1 / x\<rceil>"
  define b where "b = bitlength (N - 1)"
  have x1: "1 < 1 / x" using False assms by simp
  then have N2: "0 < N - 1" unfolding N_def by linarith
  have bpos: "0 < b" unfolding b_def using N2 by (rule bitlength_pos)
  from bitlength_bounds [OF N2] have "2 ^ nat (b - 1) \<le> N - 1" by (simp add: b_def)
  then have "(2::real) ^ nat (b - 1) \<le> of_int (N - 1)"
    by (metis of_int_le_iff of_int_numeral of_int_power)
  moreover have "of_int (N - 1) < 1 / x" unfolding N_def by linarith
  ultimately have "(2::real) ^ nat (b - 1) < 1 / x" by linarith
  then have "x < 1 / 2 ^ nat (b - 1)" using assms
    by (simp add: field_simps)
  moreover have "expo x + 1 = - (b - 1)" using False by (simp add: expo_def b_def N_def)
  moreover have "2 powi (- (b - 1)) = 1 / (2 powi (b - 1) :: real)"
    by (rule power_int_minus_divide)
  moreover have "2 powi (b - 1) = (2::real) ^ nat (b - 1)"
    using bpos by (intro power_int_nonneg_exp) simp
  ultimately show ?thesis
    by simp
qed

lemma rhe_cases: "rhe y = \<lfloor>y\<rfloor> \<or> rhe y = \<lfloor>y\<rfloor> + 1"
  by (simp add: rhe_def Let_def)

lemma rhe_error: "\<bar>of_int (rhe y) - y\<bar> \<le> 1 / 2"
proof -
  have "of_int \<lfloor>y\<rfloor> \<le> y" "y < of_int \<lfloor>y\<rfloor> + 1" by linarith+
  then show ?thesis
    by (auto simp: rhe_def Let_def)
qed

lemma rhe_ge: "of_int k \<le> y \<Longrightarrow> k \<le> rhe y"
proof -
  assume "of_int k \<le> y"
  then have "k \<le> \<lfloor>y\<rfloor>" by (simp add: le_floor_iff)
  then show ?thesis using rhe_cases [of y] by auto
qed

lemma rhe_le: "y \<le> of_int k \<Longrightarrow> rhe y \<le> k"
proof -
  assume a: "y \<le> of_int k"
  show ?thesis
  proof (cases "y = of_int k")
    case True
    then show ?thesis by (simp add: rhe_def Let_def)
  next
    case False
    with a have "y < of_int k" by simp
    then have "\<lfloor>y\<rfloor> < k" by (simp add: floor_less_iff)
    then show ?thesis using rhe_cases [of y] by auto
  qed
qed

lemma pow2_exp_less: "2 powi a \<le> (x::real) \<Longrightarrow> x < 2 powi b \<Longrightarrow> a < b"
proof (rule ccontr)
  assume a: "2 powi a \<le> x" "x < 2 powi b" and "\<not> a < b"
  then have "b \<le> a" by simp
  then have "(2::real) powi b \<le> 2 powi a"
    by (intro power_int_increasing) auto
  with a show False by linarith
qed

lemma rnd_pos:
  "0 < x \<Longrightarrow> rnd x = of_int (rhe (x / 2 powi (max (expo x - 52) (- 1074))))
      * 2 powi (max (expo x - 52) (- 1074))"
  by (simp add: rnd_def Let_def)

lemma rnd_error:
  assumes "2 powi (- 1022) \<le> x"
  shows "\<bar>rnd x - x\<bar> \<le> x / 2 ^ 53"
proof -
  have "(0::real) < 2 powi (- 1022)" by (rule zero_less_power_int) simp
  with assms have pos: "0 < x" by linarith
  define e where "e = expo x"
  define P :: real where "P = 2 powi (e - 52)"
  have "- 1022 < e + 1"
    using pow2_exp_less [OF assms expo_upper [OF pos]] by (simp add: e_def)
  then have m: "max (e - 52) (- 1074) = e - 52" by simp
  have Ppos: "0 < P" unfolding P_def by (rule zero_less_power_int) simp
  have r: "rnd x = of_int (rhe (x / P)) * P"
    using rnd_pos [OF pos] m by (simp add: e_def P_def)
  have "\<bar>of_int (rhe (x / P)) - x / P\<bar> * P \<le> 1 / 2 * P"
    using rhe_error [of "x / P"] Ppos by (intro mult_right_mono) auto
  moreover have "\<bar>of_int (rhe (x / P)) - x / P\<bar> * P = \<bar>rnd x - x\<bar>"
  proof -
    have "\<bar>of_int (rhe (x / P)) - x / P\<bar> * P = \<bar>(of_int (rhe (x / P)) - x / P) * P\<bar>"
      using Ppos by (simp add: abs_mult)
    also have "(of_int (rhe (x / P)) - x / P) * P = rnd x - x"
      using Ppos by (simp add: r field_simps)
    finally show ?thesis .
  qed
  ultimately have b: "\<bar>rnd x - x\<bar> \<le> P / 2" by simp
  have "P = 2 powi e / 2 ^ 52"
    unfolding P_def by (subst power_int_diff) auto
  moreover have "2 powi e \<le> x"
    using expo_lower [OF pos] by (simp add: e_def)
  ultimately have "P / 2 \<le> x / 2 ^ 53" by (simp add: field_simps)
  with b show ?thesis by linarith
qed

lemma rnd_scale:
  assumes "0 < x" and "x < 2 ^ 53"
  shows "\<exists>m::int. 0 < m \<and> rnd x = of_int (rhe (x * of_int m)) / of_int m"
proof -
  define p where "p = max (expo x - 52) (- 1074)"
  have "(2::real) powi 53 = 2 ^ 53" by simp
  with assms have "x < 2 powi 53" by simp
  from pow2_exp_less [OF expo_lower [OF assms(1)] this] have "p \<le> 0"
    by (simp add: p_def)
  define m :: int where "m = 2 ^ nat (- p)"
  have mpos: "0 < m" by (simp add: m_def)
  have "2 powi p = 1 / (2 powi (- p) :: real)"
    using power_int_minus_divide [of "2::real" "- p"] by simp
  also have "(2::real) powi (- p) = 2 ^ nat (- p)"
    using \<open>p \<le> 0\<close> by (intro power_int_nonneg_exp) simp
  also have "\<dots> = of_int m" by (simp add: m_def)
  finally have P: "2 powi p = 1 / (of_int m :: real)" .
  have "rnd x = of_int (rhe (x / 2 powi p)) * 2 powi p"
    using rnd_pos [OF assms(1)] by (simp add: p_def)
  then have "rnd x = of_int (rhe (x * of_int m)) / of_int m"
    by (simp add: P)
  with mpos show ?thesis by blast
qed

lemma rnd_int_lower:
  assumes "0 < x" and "x < 2 ^ 53" and "of_int k \<le> x"
  shows "of_int k \<le> rnd x"
proof -
  from rnd_scale [OF assms(1,2)] obtain m :: int
    where m: "0 < m" "rnd x = of_int (rhe (x * of_int m)) / of_int m" by blast
  have "of_int (k * m) \<le> x * of_int m"
    using assms(3) m(1) by (simp add: mult_right_mono)
  then have "k * m \<le> rhe (x * of_int m)" by (rule rhe_ge)
  then have "(of_int (k * m) :: real) \<le> of_int (rhe (x * of_int m))"
    by (simp only: of_int_le_iff)
  then have "(of_int (k * m) :: real) / of_int m \<le> of_int (rhe (x * of_int m)) / of_int m"
    using m(1) by (intro divide_right_mono) auto
  moreover have "(of_int (k * m) :: real) / of_int m = of_int k"
    using m(1) by simp
  ultimately show ?thesis using m(2) by simp
qed

lemma rnd_int_upper:
  assumes "0 < x" and "x < 2 ^ 53" and "x \<le> of_int k"
  shows "rnd x \<le> of_int k"
proof -
  from rnd_scale [OF assms(1,2)] obtain m :: int
    where m: "0 < m" "rnd x = of_int (rhe (x * of_int m)) / of_int m" by blast
  have "x * of_int m \<le> of_int (k * m)"
    using assms(3) m(1) by (simp add: mult_right_mono)
  then have "rhe (x * of_int m) \<le> k * m" by (rule rhe_le)
  then have "(of_int (rhe (x * of_int m)) :: real) \<le> of_int (k * m)"
    by (simp only: of_int_le_iff)
  then have "(of_int (rhe (x * of_int m)) :: real) / of_int m \<le> of_int (k * m) / of_int m"
    using m(1) by (intro divide_right_mono) auto
  moreover have "(of_int (k * m) :: real) / of_int m = of_int k"
    using m(1) by simp
  ultimately show ?thesis using m(2) by simp
qed

lemma rnd_of_int:
  assumes "0 \<le> k" and "k < 2 ^ 53"
  shows "rnd (of_int k) = of_int k"
proof (cases "k = 0")
  case True
  then show ?thesis by (simp add: rnd_def)
next
  case False
  with assms have p: "(0::real) < of_int k" by simp
  have "(of_int k :: real) < of_int (2 ^ 53)"
    using assms(2) by (simp only: of_int_less_iff)
  then have u: "(of_int k :: real) < 2 ^ 53" by simp
  from rnd_int_lower [OF p u, of k] rnd_int_upper [OF p u, of k] show ?thesis
    by simp
qed

lemma pow2_small: "1 / 8 \<le> (x::real) \<Longrightarrow> 2 powi (- 1022) \<le> x"
proof -
  assume a: "1 / 8 \<le> x"
  have "(2::real) powi (- 1022) \<le> 2 powi (- 3)"
    by (intro power_int_increasing) auto
  also have "(2::real) powi (- 3) = 1 / 8"
    by (simp add: power_int_minus_divide)
  finally show ?thesis using a by linarith
qed

lemma rnd_rel_lower: "1 / 8 \<le> x \<Longrightarrow> x - x / 2 ^ 53 \<le> rnd x"
  using rnd_error [OF pow2_small, of x] by linarith

lemma rnd_rel_upper: "1 / 8 \<le> x \<Longrightarrow> rnd x \<le> x + x / 2 ^ 53"
  using rnd_error [OF pow2_small, of x] by linarith

lemma rnd_positive: "1 / 8 \<le> x \<Longrightarrow> 0 < rnd x"
proof -
  assume a: "1 / 8 \<le> x"
  have "x / 2 ^ 53 < x" using a by simp
  with rnd_rel_lower [OF a] show ?thesis by linarith
qed

lemma ceiling_rnd:
  assumes "1 / 8 \<le> x" and "x < 2 ^ 53" and "x / 2 ^ 53 < x - of_int (\<lceil>x\<rceil> - 1)"
  shows "\<lceil>rnd x\<rceil> = \<lceil>x\<rceil>"
proof (rule ceiling_unique)
  from assms(1) have pos: "0 < x" by linarith
  show "rnd x \<le> of_int \<lceil>x\<rceil>"
    using pos assms(2) by (rule rnd_int_upper) simp
  show "of_int \<lceil>x\<rceil> - 1 < rnd x"
    using rnd_rel_lower [OF assms(1)] assms(3) by simp
qed

section \<open>Properties of the grid plan and of the band height\<close>


lemma ceiling_quotient_gap:
  assumes "1 \<le> n" and "1 \<le> c"
  shows "1 / of_int c \<le> (of_int n / of_int c :: real) - of_int (\<lceil>of_int n / of_int c :: real\<rceil> - 1)"
proof -
  define k where "k = \<lceil>of_int n / of_int c :: real\<rceil> - 1"
  have cpos: "(0::real) < of_int c" using assms(2) by simp
  have "(of_int k :: real) < of_int n / of_int c"
    unfolding k_def using ceiling_correct [of "of_int n / of_int c :: real"] by simp
  then have "(of_int k :: real) * of_int c < of_int n"
    using cpos by (simp add: field_simps)
  then have "(of_int (k * c) :: real) < of_int n" by simp
  then have "k * c < n" by (simp only: of_int_less_iff)
  then have "k * c + 1 \<le> n" by simp
  then have "(of_int (k * c + 1) :: real) \<le> of_int n" by (simp only: of_int_le_iff)
  then have "(of_int k :: real) * of_int c + 1 \<le> of_int n" by simp
  then have "((of_int k :: real) * of_int c + 1) / of_int c \<le> of_int n / of_int c"
    using cpos by (intro divide_right_mono) auto
  moreover have "((of_int k :: real) * of_int c + 1) / of_int c = of_int k + 1 / of_int c"
    using cpos by (simp add: add_divide_distrib)
  ultimately show ?thesis unfolding k_def by linarith
qed

lemma rows_exact:
  assumes "1 \<le> n" and "n < 2 ^ 53" and "1 \<le> c" and "c \<le> 8 * n"
  shows "\<lceil>rnd (of_int n / of_int c)\<rceil> = \<lceil>of_int n / of_int c :: real\<rceil>"
proof (rule ceiling_rnd)
  have cpos: "(0::real) < of_int c" using assms(3) by simp
  have npos: "(0::real) < of_int n" using assms(1) by simp
  have "(of_int c :: real) \<le> of_int (8 * n)" using assms(4) by (simp only: of_int_le_iff)
  then show "1 / 8 \<le> (of_int n / of_int c :: real)"
    using cpos by (simp add: field_simps)
  have "(of_int n :: real) < of_int (2 ^ 53)" using assms(2) by (simp only: of_int_less_iff)
  then have n53: "(of_int n :: real) < 2 ^ 53" by simp
  have "(1::real) \<le> of_int c" using assms(3) by simp
  then have "(of_int n / of_int c :: real) \<le> of_int n"
    using npos by (simp add: field_simps)
  with n53 show "(of_int n / of_int c :: real) < 2 ^ 53" by linarith
  have "(of_int n / of_int c :: real) / 2 ^ 53 < 1 / of_int c"
    using n53 cpos by (simp add: field_simps)
  with ceiling_quotient_gap [OF assms(1,3)]
  show "(of_int n / of_int c :: real) / 2 ^ 53
      < of_int n / of_int c - of_int (\<lceil>of_int n / of_int c :: real\<rceil> - 1)"
    by linarith
qed

lemma sqrt_gap:
  assumes "1 \<le> n" and "n < 2 ^ 52"
  shows "sqrt (of_int n) / 2 ^ 53 < sqrt (of_int n) - of_int (\<lceil>sqrt (of_int n)\<rceil> - 1)"
proof -
  define x where "x = sqrt (of_int n)"
  define k where "k = \<lceil>x\<rceil> - 1"
  have x1: "1 \<le> x" unfolding x_def using assms(1) by simp
  have xx: "x * x = of_int n" unfolding x_def using assms(1) by simp
  have kx: "of_int k < x" unfolding k_def using ceiling_correct [of x] by simp
  have k0: "0 \<le> k" unfolding k_def using x1 by (simp add: le_ceiling_iff)
  then have "(of_int k :: real) * of_int k < x * x"
    using kx by (intro mult_strict_mono') auto
  then have "(of_int (k * k) :: real) < of_int n" by (simp add: xx)
  then have "k * k < n" by (simp only: of_int_less_iff)
  then have "k * k + 1 \<le> n" by simp
  then have "(of_int (k * k + 1) :: real) \<le> of_int n" by (simp only: of_int_le_iff)
  then have g: "1 \<le> x * x - of_int k * of_int k" by (simp add: xx)
  have "x * x - of_int k * of_int k = (x - of_int k) * (x + of_int k)"
    by (simp add: algebra_simps)
  also have "\<dots> \<le> (x - of_int k) * (2 * x)"
    using kx by (intro mult_left_mono) auto
  finally have h: "1 \<le> (x - of_int k) * (2 * x)" using g by linarith
  have "(of_int n :: real) < of_int (2 ^ 52)" using assms(2) by (simp only: of_int_less_iff)
  then have "x * x < 2 ^ 52" by (simp add: xx)
  then have "x / 2 ^ 53 * (2 * x) < 1" by (simp add: field_simps)
  with h have "x / 2 ^ 53 * (2 * x) < (x - of_int k) * (2 * x)" by linarith
  then have "x / 2 ^ 53 < x - of_int k"
    using x1 by (simp add: mult_less_cancel_right)
  then show ?thesis by (simp add: x_def k_def)
qed

lemma sqrt_exact:
  assumes "1 \<le> n" and "n < 2 ^ 52"
  shows "\<lceil>fsqrt (rnd (of_int n))\<rceil> = \<lceil>sqrt (of_int n)\<rceil>"
proof -
  have r: "rnd (of_int n) = of_int n"
    using assms by (intro rnd_of_int) auto
  have x1: "1 \<le> sqrt (of_int n)" using assms(1) by simp
  have "(of_int n :: real) < of_int (2 ^ 52)" using assms(2) by (simp only: of_int_less_iff)
  then have "(of_int n :: real) < (2 ^ 26) ^ 2" by simp
  then have "sqrt (of_int n) < sqrt ((2 ^ 26) ^ 2)"
    by (simp only: real_sqrt_less_iff)
  then have "sqrt (of_int n) < 2 ^ 26" by simp
  then have u: "sqrt (of_int n) < 2 ^ 53" by simp
  have a: "1 / 8 \<le> sqrt (of_int n)" using x1 by linarith
  have "\<lceil>rnd (sqrt (of_int n))\<rceil> = \<lceil>sqrt (of_int n)\<rceil>"
    by (rule ceiling_rnd [OF a u sqrt_gap [OF assms]])
  then show ?thesis by (simp add: fsqrt_def r)
qed

lemma rnd_fifth: "rnd (1 / 5) = 3602879701896397 / 18014398509481984"
  by code_simp

lemma grid_columns_small:
  "n \<le> 16 \<Longrightarrow> grid_columns n = (if n \<le> 4 then 2 else if n \<le> 9 then 3 else 4)"
  by (simp add: grid_columns_def)

lemma grid_columns_large: "16 < n \<Longrightarrow> grid_columns n = \<lceil>fsqrt (rnd (of_int n))\<rceil>"
  by (simp add: grid_columns_def)

lemma grid_columns_bounds:
  assumes "1 \<le> n"
  shows "2 \<le> grid_columns n \<and> grid_columns n \<le> 8 * n"
proof (cases "n \<le> 16")
  case True
  with assms show ?thesis by (simp add: grid_columns_small)
next
  case False
  define N :: real where "N = of_int n"
  define y where "y = rnd N"
  define s where "s = sqrt y"
  define z where "z = rnd s"
  have N17: "17 \<le> N" using False by (simp add: N_def)
  then have N8: "1 / 8 \<le> N" by linarith
  have "N / 2 ^ 53 \<le> N / 17" using N17 by (intro divide_left_mono) auto
  with rnd_rel_lower [OF N8] rnd_rel_upper [OF N8] N17
  have y: "16 \<le> y" "y \<le> 2 * N" unfolding y_def by linarith+
  have "sqrt 16 \<le> sqrt y" using y(1) by (simp only: real_sqrt_le_iff)
  then have s4: "4 \<le> s" by (simp add: s_def)
  have "s * s = y" using y(1) by (simp add: s_def)
  moreover have "1 * s \<le> s * s" using s4 by (intro mult_right_mono) auto
  ultimately have sy: "s \<le> y" by simp
  have s8: "1 / 8 \<le> s" using s4 by linarith
  have "s / 2 ^ 53 \<le> s / 4" using s4 by (intro divide_left_mono) auto
  with rnd_rel_lower [OF s8] rnd_rel_upper [OF s8] s4
  have z: "3 \<le> z" "z \<le> 2 * s" unfolding z_def by linarith+
  have c: "grid_columns n = \<lceil>z\<rceil>"
    using False by (simp add: grid_columns_large fsqrt_def z_def s_def y_def N_def)
  have "of_int 3 \<le> z" using z(1) by simp
  then have "3 \<le> \<lceil>z\<rceil>" by (simp add: le_ceiling_iff)
  moreover have "z \<le> of_int (4 * n)" using z(2) sy y(2) by (simp add: N_def)
  then have "\<lceil>z\<rceil> \<le> 4 * n" by (simp only: ceiling_le_iff)
  ultimately show ?thesis using c assms by simp
qed

lemma grid_rows_positive:
  assumes "1 \<le> n"
  shows "1 \<le> grid_rows n"
proof -
  define c where "c = grid_columns n"
  from grid_columns_bounds [OF assms] have c: "2 \<le> c" "c \<le> 8 * n" by (simp_all add: c_def)
  have cpos: "(0::real) < of_int c" using c(1) by simp
  have "(of_int c :: real) \<le> of_int (8 * n)" using c(2) by (simp only: of_int_le_iff)
  then have "1 / 8 \<le> (of_int n / of_int c :: real)"
    using cpos by (simp add: field_simps)
  then have "0 < rnd (of_int n / of_int c)" by (rule rnd_positive)
  then have "0 < \<lceil>rnd (of_int n / of_int c)\<rceil>" by (simp add: less_ceiling_iff)
  then show ?thesis by (simp add: grid_rows_def c_def)
qed

lemma grid_rows_exact:
  assumes "1 \<le> n" and "n < 2 ^ 52"
  shows "grid_rows n = \<lceil>of_int n / of_int (grid_columns n) :: real\<rceil>"
proof -
  from grid_columns_bounds [OF assms(1)]
  have c: "1 \<le> grid_columns n" "grid_columns n \<le> 8 * n" by simp_all
  have "n < 2 ^ 53" using assms(2) by simp
  from rows_exact [OF assms(1) this c] show ?thesis by (simp add: grid_rows_def)
qed

lemma grid_columns_exact:
  assumes "16 < n" and "n < 2 ^ 52"
  shows "grid_columns n = \<lceil>sqrt (of_int n)\<rceil>"
  using assms sqrt_exact [of n] by (simp add: grid_columns_large)

lemma grid_has_room:
  assumes "1 \<le> n" and "n < 2 ^ 52"
  shows "n \<le> grid_rows n * grid_columns n"
proof -
  define c where "c = grid_columns n"
  have cpos: "(0::real) < of_int c"
    using grid_columns_bounds [OF assms(1)] by (simp add: c_def)
  have "(of_int n / of_int c :: real) \<le> of_int (grid_rows n)"
    using grid_rows_exact [OF assms] by (simp add: c_def)
  then have "(of_int n :: real) \<le> of_int (grid_rows n) * of_int c"
    using cpos by (simp add: field_simps)
  then have "(of_int n :: real) \<le> of_int (grid_rows n * c)" by simp
  then show ?thesis by (simp only: of_int_le_iff c_def)
qed

lemma trunc_nonneg: "0 \<le> x \<Longrightarrow> trunc x = \<lfloor>x\<rfloor>"
  by (simp add: trunc_def)

lemma band_height_zero: "band_height_of 0 = 0"
  by (simp add: band_height_of_def fmul_def rnd_def trunc_def)

lemma band_height_bounds:
  assumes "0 \<le> h"
  shows "0 \<le> band_height_of h \<and> band_height_of h \<le> h"
proof (cases "h = 0")
  case True
  then show ?thesis by (simp add: band_height_zero)
next
  case False
  define H :: real where "H = of_int h"
  define y where "y = rnd H"
  define x where "x = y * (3602879701896397 / 18014398509481984)"
  have H1: "1 \<le> H" using assms False by (simp add: H_def)
  then have H8: "1 / 8 \<le> H" by linarith
  have "H / 2 ^ 53 \<le> H / 100" using H1 by (intro divide_left_mono) auto
  with rnd_rel_lower [OF H8] rnd_rel_upper [OF H8] H1
  have y: "99 / 100 * H \<le> y" "y \<le> 101 / 100 * H" unfolding y_def by linarith+
  have x8: "1 / 8 \<le> x" using y(1) H1 unfolding x_def by linarith
  have "x / 2 ^ 53 \<le> x / 100" using x8 by (intro divide_left_mono) auto
  with rnd_rel_lower [OF x8] rnd_rel_upper [OF x8] x8
  have r: "0 \<le> rnd x" "rnd x \<le> 101 / 100 * x" by linarith+
  have "rnd x \<le> H" using r(2) y(2) H1 unfolding x_def by linarith
  then have "rnd x \<le> of_int h" by (simp add: H_def)
  then have "\<lfloor>rnd x\<rfloor> \<le> h" by (simp add: floor_le_iff)
  moreover have "0 \<le> \<lfloor>rnd x\<rfloor>" using r(1) by simp
  moreover have "band_height_of h = \<lfloor>rnd x\<rfloor>"
    using r(1) by (simp add: band_height_of_def fmul_def rnd_fifth x_def y_def H_def trunc_nonneg)
  ultimately show ?thesis by simp
qed

lemma band_height_exact:
  assumes "0 \<le> h" and "h < 2 ^ 50"
  shows "band_height_of h = h div 5"
proof (cases "h = 0")
  case True
  then show ?thesis by (simp add: band_height_zero)
next
  case False
  define H :: real where "H = of_int h"
  define k where "k = h div 5"
  define x where "x = H * (3602879701896397 / 18014398509481984)"
  have H1: "1 \<le> H" using assms False by (simp add: H_def)
  have "(of_int h :: real) < of_int (2 ^ 50)" using assms(2) by (simp only: of_int_less_iff)
  then have H50: "H < 2 ^ 50" by (simp add: H_def)
  have y: "rnd H = H" unfolding H_def using assms by (intro rnd_of_int) auto
  have "5 * k \<le> h" "h \<le> 5 * k + 4" unfolding k_def by simp_all
  then have "(of_int (5 * k) :: real) \<le> of_int h" "(of_int h :: real) \<le> of_int (5 * k + 4)"
    by (simp_all only: of_int_le_iff)
  then have k: "5 * of_int k \<le> H" "H \<le> 5 * of_int k + 4" by (simp_all add: H_def)
  have x8: "1 / 8 \<le> x" using H1 unfolding x_def by linarith
  have xpos: "0 < x" using x8 by linarith
  have x53: "x < 2 ^ 53" using H50 H1 unfolding x_def by (simp; linarith)
  have "of_int k \<le> x" using k(1) H1 unfolding x_def by linarith
  then have lo: "of_int k \<le> rnd x" by (rule rnd_int_lower [OF xpos x53])
  have "x / 2 ^ 53 \<le> 1 / 32" using H50 H1 unfolding x_def by (simp; linarith)
  moreover have "x \<le> of_int k + 4 / 5 + 1 / 32" using k(2) H50 H1 unfolding x_def by (simp; linarith)
  ultimately have hi: "rnd x < of_int k + 1" using rnd_rel_upper [OF x8] by linarith
  have "\<lfloor>rnd x\<rfloor> = k" using lo hi by (rule floor_unique)
  moreover have "0 \<le> rnd x" using rnd_positive [OF x8] by simp
  ultimately show ?thesis
    by (simp add: band_height_of_def fmul_def rnd_fifth y [unfolded H_def] x_def H_def k_def
        trunc_nonneg)
qed

text \<open>
  C1. The grid plan of \<^verbatim>\<open>merge_images\<close> for \<open>n\<close> images, \<open>n \<ge> 1\<close>: two columns up to 4
  images, three up to 9, four up to 16, and beyond that the ceiling of the square root;
  the rows are the ceiling of \<open>n / columns\<close>. The program computes the square root and the
  quotient in binary64 arithmetic; for every count below \<open>2 ^ 52\<close> the two ceilings are
  those of the exact square root and the exact quotient.
\<close>

theorem grid_plan:
  assumes "1 \<le> n"
  shows "(n \<le> 4 \<longrightarrow> grid_columns n = 2)
       \<and> (5 \<le> n \<and> n \<le> 9 \<longrightarrow> grid_columns n = 3)
       \<and> (10 \<le> n \<and> n \<le> 16 \<longrightarrow> grid_columns n = 4)
       \<and> (16 < n \<longrightarrow> grid_columns n = \<lceil>fsqrt (rnd (of_int n))\<rceil>)
       \<and> grid_rows n = \<lceil>rnd (of_int n / of_int (grid_columns n))\<rceil>
       \<and> (n < 2 ^ 52 \<longrightarrow>
            (16 < n \<longrightarrow> grid_columns n = \<lceil>sqrt (of_int n)\<rceil>)
            \<and> grid_rows n = \<lceil>of_int n / of_int (grid_columns n) :: real\<rceil>)"
proof -
  have "n \<le> 4 \<longrightarrow> grid_columns n = 2"
    by (simp add: grid_columns_def)
  moreover have "5 \<le> n \<and> n \<le> 9 \<longrightarrow> grid_columns n = 3"
    by (simp add: grid_columns_def)
  moreover have "10 \<le> n \<and> n \<le> 16 \<longrightarrow> grid_columns n = 4"
    by (simp add: grid_columns_def)
  moreover have "16 < n \<longrightarrow> grid_columns n = \<lceil>fsqrt (rnd (of_int n))\<rceil>"
    by (simp add: grid_columns_large)
  moreover have "grid_rows n = \<lceil>rnd (of_int n / of_int (grid_columns n))\<rceil>"
    by (simp add: grid_rows_def)
  moreover have "n < 2 ^ 52 \<longrightarrow> (16 < n \<longrightarrow> grid_columns n = \<lceil>sqrt (of_int n)\<rceil>)"
    using grid_columns_exact [of n] by blast
  moreover have "n < 2 ^ 52 \<longrightarrow> grid_rows n = \<lceil>of_int n / of_int (grid_columns n) :: real\<rceil>"
    using grid_rows_exact [OF assms] by blast
  ultimately show ?thesis by blast
qed

theorem grid_plan_witness:
  "grid_columns 1 = 2 \<and> grid_rows 1 = 1
   \<and> grid_columns 4 = 2 \<and> grid_rows 4 = 2
   \<and> grid_columns 9 = 3 \<and> grid_rows 9 = 3
   \<and> grid_columns 10 = 4 \<and> grid_rows 10 = 3
   \<and> grid_columns 17 = 5 \<and> grid_rows 17 = 4"
proof -
  have a1: "(1::int) \<le> 1" "(1::int) \<le> 4" "(1::int) < 2 ^ 52" by simp_all
  from grid_plan [OF a1(1)] a1
  have c1: "grid_columns 1 = 2"
    and r1: "grid_rows 1 = \<lceil>of_int 1 / of_int (grid_columns 1) :: real\<rceil>" by blast+
  have a4: "(1::int) \<le> 4" "(4::int) \<le> 4" "(4::int) < 2 ^ 52" by simp_all
  from grid_plan [OF a4(1)] a4
  have c4: "grid_columns 4 = 2"
    and r4: "grid_rows 4 = \<lceil>of_int 4 / of_int (grid_columns 4) :: real\<rceil>" by blast+
  have a9: "(1::int) \<le> 9" "(5::int) \<le> 9 \<and> (9::int) \<le> 9" "(9::int) < 2 ^ 52" by simp_all
  from grid_plan [OF a9(1)] a9
  have c9: "grid_columns 9 = 3"
    and r9: "grid_rows 9 = \<lceil>of_int 9 / of_int (grid_columns 9) :: real\<rceil>" by blast+
  have a10: "(1::int) \<le> 10" "(10::int) \<le> 10 \<and> (10::int) \<le> 16" "(10::int) < 2 ^ 52"
    by simp_all
  from grid_plan [OF a10(1)] a10
  have c10: "grid_columns 10 = 4"
    and r10: "grid_rows 10 = \<lceil>of_int 10 / of_int (grid_columns 10) :: real\<rceil>" by blast+
  have a17: "(1::int) \<le> 17" "(16::int) < 17" "(17::int) < 2 ^ 52" by simp_all
  from grid_plan [OF a17(1)] a17
  have c17: "grid_columns 17 = \<lceil>sqrt (of_int 17)\<rceil>"
    and r17: "grid_rows 17 = \<lceil>of_int 17 / of_int (grid_columns 17) :: real\<rceil>" by blast+
  have "4 < sqrt 17" by (rule real_less_rsqrt) simp
  moreover have "sqrt 17 \<le> 5" by (rule real_le_lsqrt) simp_all
  ultimately have "of_int 5 - 1 < sqrt 17" "sqrt 17 \<le> of_int 5" by simp_all
  then have s: "\<lceil>sqrt 17\<rceil> = 5" by (rule ceiling_unique)
  have h: "\<lceil>1 / 2 :: real\<rceil> = 1" by (rule ceiling_unique) simp_all
  have "grid_rows 1 = 1" using r1 by (simp add: c1 h)
  moreover have "grid_rows 4 = 2" using r4 by (simp add: c4)
  moreover have "grid_rows 9 = 3" using r9 by (simp add: c9)
  moreover have "grid_rows 10 = 3" using r10 by (simp add: c10)
  moreover have c17': "grid_columns 17 = 5" using c17 s by simp
  moreover have "grid_rows 17 = 4" using r17 by (simp add: c17')
  ultimately show ?thesis
    using c1 c4 c9 c10 by simp
qed

section \<open>Properties of the colour parser\<close>

subsection \<open>Only \<^verbatim>\<open>ValueError\<close> is raised inside the parser, and it is caught\<close>

lemma int_digits_raises: "int_digits b s = Inl e \<Longrightarrow> e = ValueError"
  by (auto simp: int_digits_def Let_def split: if_splits)

lemma py_int_raises: "py_int b s = Inl e \<Longrightarrow> e = ValueError"
  by (auto simp: py_int_def bind_exn_def Let_def split: prod.splits sum.splits if_splits
      dest: int_digits_raises)

lemma py_float_raises: "py_float s = Inl e \<Longrightarrow> e = ValueError"
  by (auto simp: py_float_def Let_def split: prod.splits option.splits if_splits)

lemma map_exn_raises:
  "(\<And>v e. f v = Inl e \<Longrightarrow> e = ValueError) \<Longrightarrow> map_exn f vs = Inl e \<Longrightarrow> e = ValueError"
  by (induction vs) (auto split: sum.splits)

lemma hex_to_rgb_raises: "hex_to_rgb s = Inl e \<Longrightarrow> e = ValueError"
  by (auto simp: hex_to_rgb_def bind_exn_def Let_def split: sum.splits dest: py_int_raises)

lemma rgb_values_raises: "rgb_values vs = Inl e \<Longrightarrow> e = ValueError"
  by (auto simp: rgb_values_def bind_exn_def split: sum.splits if_splits
      dest!: map_exn_raises [rotated] dest: py_int_raises)

lemma cmyk_values_raises: "cmyk_values vs = Inl e \<Longrightarrow> e = ValueError"
  by (auto simp: cmyk_values_def bind_exn_def split: sum.splits if_splits
      dest!: map_exn_raises [rotated] dest: py_float_raises)

lemma parse_body_raises: "parse_body s = Inl e \<Longrightarrow> e = ValueError"
  unfolding parse_body_def
  by (auto simp: bind_exn_def split: if_splits sum.splits
      dest: hex_to_rgb_raises rgb_values_raises cmyk_values_raises)

lemma parse_color_input_returns: "\<exists>r. parse_color_input s = Inr r"
  by (auto simp: parse_color_input_def split: sum.splits dest: parse_body_raises)

subsection \<open>Splitting at commas\<close>

lemma split_comma_no_comma: "CHR '','' \<notin> set s \<Longrightarrow> split_comma s = [s]"
  by (induction s) auto

lemma split_comma_field:
  "CHR '','' \<notin> set a \<Longrightarrow> split_comma (a @ CHR '','' # s) = a # split_comma s"
  by (induction a) auto

subsection \<open>Four bare fields\<close>

lemma comma_not_hex: "CHR '','' \<in> set t \<Longrightarrow> \<not> all_hex_chars t"
  unfolding all_hex_chars_def list_all_iff
  by (rule notI, drule bspec, assumption, simp)

lemma parse_body_four_bare_fields:
  assumes "length (split_comma t) = 4" and "\<not> startswith t ''#''"
    and "\<not> startswith t ''rgb(''" and "\<not> startswith t ''cmyk''"
  shows "parse_body t = Inr None"
proof -
  have c: "CHR '','' \<in> set t"
    using assms(1) split_comma_no_comma [of t] by (cases "CHR '','' \<in> set t") auto
  then have "\<not> all_hex_chars t"
    by (rule comma_not_hex)
  with c assms show ?thesis
    by (simp add: parse_body_def rgb_values_def)
qed

text \<open>
  C3. The docstring of \<^verbatim>\<open>parse_color_input\<close> promises the bare form \<^verbatim>\<open>0,100,100,0\<close>, and
  the last \<^verbatim>\<open>elif\<close> is written for it, but that branch is never reached: a text with a
  comma that does not start with \<^verbatim>\<open>cmyk\<close> is taken by the bare RGB branch, which
  returns nothing for four fields. So every input of four comma-separated fields that
  carries no \<^verbatim>\<open>#\<close>, \<^verbatim>\<open>rgb(\<close> or \<^verbatim>\<open>cmyk\<close> prefix is rejected, whatever the fields are.
\<close>

theorem bare_cmyk_is_rejected:
  assumes "t = py_lower (py_strip s)" and "length (split_comma t) = 4"
    and "\<not> startswith t ''#''" and "\<not> startswith t ''rgb(''" and "\<not> startswith t ''cmyk''"
  shows "parse_color_input s = Inr None"
  using parse_body_four_bare_fields [OF assms(2-5)] assms(1)
  by (simp add: parse_color_input_def)

theorem bare_cmyk_is_rejected_witness:
  "length (split_comma (py_lower (py_strip ''0,100,100,0''))) = 4
   \<and> \<not> startswith (py_lower (py_strip ''0,100,100,0'')) ''#''
   \<and> \<not> startswith (py_lower (py_strip ''0,100,100,0'')) ''rgb(''
   \<and> \<not> startswith (py_lower (py_strip ''0,100,100,0'')) ''cmyk''
   \<and> parse_color_input ''0,100,100,0'' = Inr None"
proof -
  have h1: "length (split_comma (py_lower (py_strip ''0,100,100,0''))) = 4"
    by code_simp
  have h2: "\<not> startswith (py_lower (py_strip ''0,100,100,0'')) ''#''"
    by code_simp
  have h3: "\<not> startswith (py_lower (py_strip ''0,100,100,0'')) ''rgb(''"
    by code_simp
  have h4: "\<not> startswith (py_lower (py_strip ''0,100,100,0'')) ''cmyk''"
    by code_simp
  from bare_cmyk_is_rejected [OF refl h1 h2 h3 h4] h1 h2 h3 h4 show ?thesis
    by blast
qed

text \<open>
  C7. A text that starts with \<^verbatim>\<open>#\<close> goes to \<^verbatim>\<open>hex_to_rgb\<close> unchecked, and \<^verbatim>\<open>hex_to_rgb\<close>
  reads the first three pairs of characters after the \<^verbatim>\<open>#\<close> signs, whatever follows them.
  The parser never raises, and three digits are rejected; but eight digits, six digits
  with trailing characters, and five digits each give a colour.
\<close>

theorem hash_prefix_is_not_validated:
  "(\<forall>s. \<exists>r. parse_color_input s = Inr r)
   \<and> parse_color_input ''#abc'' = Inr None
   \<and> parse_color_input ''#11223344'' = Inr (Some (17, 34, 51))
   \<and> parse_color_input ''#ff0000zz'' = Inr (Some (255, 0, 0))
   \<and> parse_color_input ''#abcde'' = Inr (Some (171, 205, 14))"
proof -
  have "parse_color_input ''#abc'' = Inr None"
    by code_simp
  moreover have "parse_color_input ''#11223344'' = Inr (Some (17, 34, 51))"
    by code_simp
  moreover have "parse_color_input ''#ff0000zz'' = Inr (Some (255, 0, 0))"
    by code_simp
  moreover have "parse_color_input ''#abcde'' = Inr (Some (171, 205, 14))"
    by code_simp
  ultimately show ?thesis
    using parse_color_input_returns by blast
qed


subsection \<open>The \<^verbatim>\<open>cmyk(...)\<close> form\<close>

lemma py_slice_inner: "py_slice (p @ xs @ [y]) (int (length p)) (- 1) = xs"
  by (simp add: py_slice_def slice_bound_def Let_def)

lemma startswith_append: "startswith (p @ xs) p"
  by (simp add: startswith_def)

lemma endswith_append: "endswith (xs @ p) p"
  by (simp add: endswith_def)

lemma split_comma_four:
  assumes "CHR '','' \<notin> set a" and "CHR '','' \<notin> set b"
    and "CHR '','' \<notin> set c" and "CHR '','' \<notin> set d"
  shows "split_comma (a @ '','' @ b @ '','' @ c @ '','' @ d) = [a, b, c, d]"
  using assms by (simp add: split_comma_field split_comma_no_comma)

lemma cmyk_values_four:
  assumes "py_float (py_strip a) = Inr (Finite ca)" and "py_float (py_strip b) = Inr (Finite cb)"
    and "py_float (py_strip c) = Inr (Finite cc)" and "py_float (py_strip d) = Inr (Finite cd)"
    and "0 \<le> ca \<and> ca \<le> 100" and "0 \<le> cb \<and> cb \<le> 100"
    and "0 \<le> cc \<and> cc \<le> 100" and "0 \<le> cd \<and> cd \<le> 100"
  shows "cmyk_values [a, b, c, d] = Inr (Some (cmyk_to_rgb ca cb cc cd))"
  using assms by (simp add: cmyk_values_def bind_exn_def)

lemma parse_body_cmyk:
  assumes "CHR '','' \<notin> set a" and "CHR '','' \<notin> set b"
    and "CHR '','' \<notin> set c" and "CHR '','' \<notin> set d"
  shows "parse_body (''cmyk('' @ a @ '','' @ b @ '','' @ c @ '','' @ d @ '')'')
       = cmyk_values [a, b, c, d]"
proof -
  define inner where "inner = a @ '','' @ b @ '','' @ c @ '','' @ d"
  define t where "t = ''cmyk('' @ inner @ '')''"
  have h: "\<not> startswith t ''#''" "\<not> startswith t ''rgb(''" "startswith t ''cmyk''"
    "startswith t ''cmyk(''"
    by (simp_all add: t_def startswith_def)
  have l: "length t \<noteq> 6" by (simp add: t_def inner_def)
  have e: "endswith t '')''"
    unfolding t_def using endswith_append [of "''cmyk('' @ inner" "'')''"] by simp
  have s: "py_slice t 5 (- 1) = inner"
    unfolding t_def using py_slice_inner [of "''cmyk(''" inner "CHR '')''"] by simp
  have "parse_body t = cmyk_values (split_comma inner)"
    using h l e by (simp add: parse_body_def s)
  then show ?thesis
    using split_comma_four [OF assms] by (simp add: t_def inner_def)
qed

text \<open>
  C8. A text whose trimmed, lower-cased form is \<^verbatim>\<open>cmyk(a,b,c,d)\<close>, the four fields being
  float literals with values \<open>ca\<close>, \<open>cb\<close>, \<open>cc\<close>, \<open>cd\<close> between 0 and 100, is parsed to the
  triple of \<^verbatim>\<open>int(255 * (1 - x/100) * (1 - k/100))\<close> for \<open>x\<close> the first, second and third
  value and \<open>k\<close> the fourth. The operations are Python's float operations, applied from the
  left, each rounding to binary64; \<^verbatim>\<open>int\<close> truncates towards zero.
\<close>

theorem cmyk_wrapper_converts:
  assumes "py_lower (py_strip s) = ''cmyk('' @ a @ '','' @ b @ '','' @ c @ '','' @ d @ '')''"
    and "CHR '','' \<notin> set a" and "CHR '','' \<notin> set b"
    and "CHR '','' \<notin> set c" and "CHR '','' \<notin> set d"
    and "py_float (py_strip a) = Inr (Finite ca)" and "py_float (py_strip b) = Inr (Finite cb)"
    and "py_float (py_strip c) = Inr (Finite cc)" and "py_float (py_strip d) = Inr (Finite cd)"
    and "0 \<le> ca \<and> ca \<le> 100" and "0 \<le> cb \<and> cb \<le> 100"
    and "0 \<le> cc \<and> cc \<le> 100" and "0 \<le> cd \<and> cd \<le> 100"
  shows "parse_color_input s =
     Inr (Some (trunc (fmul (fmul 255 (fsub 1 (fdiv ca 100))) (fsub 1 (fdiv cd 100))),
                trunc (fmul (fmul 255 (fsub 1 (fdiv cb 100))) (fsub 1 (fdiv cd 100))),
                trunc (fmul (fmul 255 (fsub 1 (fdiv cc 100))) (fsub 1 (fdiv cd 100)))))"
proof -
  have "parse_body (py_lower (py_strip s)) = Inr (Some (cmyk_to_rgb ca cb cc cd))"
    unfolding assms(1) parse_body_cmyk [OF assms(2-5)]
    by (rule cmyk_values_four [OF assms(6-13)])
  then show ?thesis
    by (simp add: parse_color_input_def cmyk_to_rgb_def cmyk_channel_def)
qed

theorem cmyk_wrapper_converts_witness:
  "parse_color_input ''cmyk(0,0,0,0)'' = Inr (Some (255, 255, 255))
   \<and> parse_color_input ''cmyk(0,0,0,100)'' = Inr (Some (0, 0, 0))"
proof -
  have f0: "py_float (py_strip ''0'') = Inr (Finite 0)" by code_simp
  have f100: "py_float (py_strip ''100'') = Inr (Finite 100)" by code_simp
  have n: "CHR '','' \<notin> set ''0''" "CHR '','' \<notin> set ''100''" by simp_all
  have r: "(0::real) \<le> 0 \<and> (0::real) \<le> 100" "(0::real) \<le> 100 \<and> (100::real) \<le> 100"
    by simp_all
  have s0: "py_lower (py_strip ''cmyk(0,0,0,0)'')
      = ''cmyk('' @ ''0'' @ '','' @ ''0'' @ '','' @ ''0'' @ '','' @ ''0'' @ '')''"
    by code_simp
  have s100: "py_lower (py_strip ''cmyk(0,0,0,100)'')
      = ''cmyk('' @ ''0'' @ '','' @ ''0'' @ '','' @ ''0'' @ '','' @ ''100'' @ '')''"
    by code_simp
  have v0: "trunc (fmul (fmul 255 (fsub 1 (fdiv 0 100))) (fsub 1 (fdiv 0 100))) = 255"
    by code_simp
  have v100: "trunc (fmul (fmul 255 (fsub 1 (fdiv 0 100))) (fsub 1 (fdiv 100 100))) = 0"
    by code_simp
  have "parse_color_input ''cmyk(0,0,0,0)'' = Inr (Some (255, 255, 255))"
    using cmyk_wrapper_converts [OF s0 n(1) n(1) n(1) n(1) f0 f0 f0 f0 r(1) r(1) r(1) r(1)]
    by (simp only: v0)
  moreover have "parse_color_input ''cmyk(0,0,0,100)'' = Inr (Some (0, 0, 0))"
    using cmyk_wrapper_converts [OF s100 n(1) n(1) n(1) n(2) f0 f0 f0 f100 r(1) r(1) r(1) r(2)]
    by (simp only: v100)
  ultimately show ?thesis by blast
qed

text \<open>
  Each operation rounds, so the result is not always the truncation of the exact product:
  \<^verbatim>\<open>1 - 80/100\<close> is a float just below one fifth, and \<^verbatim>\<open>cmyk(0,0,0,80)\<close> gives 50 where the
  exact product is 51.
\<close>

lemma cmyk_rounding_example:
  "parse_color_input ''cmyk(0,0,0,80)'' = Inr (Some (50, 50, 50))
   \<and> \<lfloor>255 * (1 - 0 / 100) * (1 - 80 / 100) :: real\<rfloor> = 51"
proof -
  have "parse_color_input ''cmyk(0,0,0,80)'' = Inr (Some (50, 50, 50))" by code_simp
  then show ?thesis by simp
qed

section \<open>Properties of the band renderer\<close>

lemma width_mk_image: "width (mk_image w h f) = w"
  by (simp add: mk_image_def)

lemma height_mk_image: "height (mk_image w h f) = h"
  by (simp add: mk_image_def height_def)

lemma row_mk_image: "j < h \<Longrightarrow> pixels (mk_image w h f) ! j = map (\<lambda>i. f i j) [0..<w]"
  by (simp add: mk_image_def)

lemma pixel_mk_image: "i < w \<Longrightarrow> j < h \<Longrightarrow> pixel (mk_image w h f) i j = f i j"
  by (simp add: mk_image_def pixel_def)

lemma width_paste: "width (paste f src pos dst) = width dst"
  by (cases pos) (simp add: paste_def width_mk_image)

lemma height_paste: "height (paste f src pos dst) = height dst"
  by (cases pos) (simp add: paste_def height_mk_image)

lemma pixel_paste:
  assumes "i < width dst" and "j < height dst"
  shows "pixel (paste f src (x, y) dst) i j =
     (if x \<le> int i \<and> int i < x + int (width src) \<and> y \<le> int j \<and> int j < y + int (height src)
      then f (pixel src (nat (int i - x)) (nat (int j - y))) (pixel dst i j)
      else pixel dst i j)"
  using assms by (simp add: paste_def pixel_mk_image)

lemma width_crop: "width (crop b img (l, u, r, lo)) = nat (r - l)"
  by (simp add: crop_def width_mk_image)

lemma height_crop: "height (crop b img (l, u, r, lo)) = nat (lo - u)"
  by (simp add: crop_def height_mk_image)

lemma pixel_crop_rows:
  assumes "i < width img" and "0 \<le> u" and "int j < lo - u" and "nat u + j < height img"
  shows "pixel (crop b img (0, u, int (width img), lo)) i j = pixel img i (nat u + j)"
proof -
  have a: "j < nat (lo - u)" using assms(3) by simp
  have c: "nat (u + int j) = nat u + j" using assms(2) by (simp add: nat_add_distrib)
  have d: "u + int j < int (height img)" "0 \<le> u + int j" using assms(2,4) by linarith+
  have "pixel (crop b img (0, u, int (width img), lo)) i j = pixel img (nat (int i)) (nat (u + int j))"
    using a d assms(1) by (simp add: crop_def pixel_mk_image)
  then show ?thesis by (simp add: c)
qed

text \<open>Each pixel of the result of \<^verbatim>\<open>add_info_band\<close>, by the three vertical parts.\<close>

lemma pixel_add_info_band:
  fixes img :: "'p image"
  defines "bh \<equiv> band_height_of (int (height img))"
  defines "pos \<equiv> (int (height img) - bh) div 2"
  assumes i: "i < width img" and j: "j < height img"
  shows "pixel (add_info_band L img file_count theme_color) i j =
     (if int j < pos then pixel img i j
      else if int j < pos + bh
      then mask_px L (band_px L (width img, nat bh) (file_count * 3) theme_color i (nat (int j - pos)))
             (blank L)
      else pixel img i (j - nat bh))"
proof -
  have b: "0 \<le> bh" "bh \<le> int (height img)"
    unfolding bh_def using band_height_bounds [of "int (height img)"] by simp_all
  then have p: "0 \<le> pos" "pos + bh \<le> int (height img)" unfolding pos_def by linarith+
  define f0 where "f0 = new_image (blank L) (width img) (height img)"
  define f1 where "f1 = paste replace_px (crop (blank L) img (0, 0, int (width img), pos)) (0, 0) f0"
  define band where
    "band = mk_image (width img) (nat bh) (band_px L (width img, nat bh) (file_count * 3) theme_color)"
  define f2 where "f2 = paste (mask_px L) band (0, pos) f1"
  define f3 where "f3 = paste replace_px (crop (blank L) img (0, pos, int (width img), int (height img)))
      (0, pos + bh) f2"
  have r: "add_info_band L img file_count theme_color = f3"
    by (simp add: add_info_band_def Let_def f3_def f2_def f1_def f0_def band_def bh_def pos_def)
  have d0: "width f0 = width img" "height f0 = height img"
    by (simp_all add: f0_def new_image_def width_mk_image height_mk_image)
  have d1: "width f1 = width img" "height f1 = height img"
    by (simp_all add: f1_def width_paste height_paste d0)
  have d2: "width f2 = width img" "height f2 = height img"
    by (simp_all add: f2_def width_paste height_paste d1)
  have p0: "pixel f0 i j = blank L"
    using i j by (simp add: f0_def new_image_def pixel_mk_image)
  have p1: "pixel f1 i j = (if int j < pos then pixel img i j else blank L)"
  proof (cases "int j < pos")
    case True
    then have "pixel (crop (blank L) img (0, 0, int (width img), pos)) i j = pixel img i (nat 0 + j)"
      using i j by (intro pixel_crop_rows) auto
    then show ?thesis
      using True i j unfolding f1_def
      by (simp add: pixel_paste d0 width_crop height_crop replace_px_def)
  next
    case False
    then show ?thesis
      using i j p unfolding f1_def
      by (simp add: pixel_paste d0 width_crop height_crop p0)
  qed
  have p2: "pixel f2 i j =
     (if pos \<le> int j \<and> int j < pos + bh
      then mask_px L (band_px L (width img, nat bh) (file_count * 3) theme_color i (nat (int j - pos)))
             (blank L)
      else pixel f1 i j)"
  proof (cases "pos \<le> int j \<and> int j < pos + bh")
    case True
    then have "nat (int j - pos) < nat bh" by linarith
    then have "pixel band i (nat (int j - pos)) =
        band_px L (width img, nat bh) (file_count * 3) theme_color i (nat (int j - pos))"
      using i by (simp add: band_def pixel_mk_image)
    then show ?thesis
      using True i j b unfolding f2_def
      by (simp add: pixel_paste d1 p1 band_def width_mk_image height_mk_image)
  next
    case False
    then show ?thesis
      using i j b unfolding f2_def
      by (auto simp: pixel_paste d1 band_def width_mk_image height_mk_image)
  qed
  have p3: "pixel f3 i j = (if pos + bh \<le> int j then pixel img i (j - nat bh) else pixel f2 i j)"
  proof (cases "pos + bh \<le> int j")
    case True
    have "pixel (crop (blank L) img (0, pos, int (width img), int (height img))) i
        (nat (int j - (pos + bh))) = pixel img i (nat pos + nat (int j - (pos + bh)))"
      using i j p b True by (intro pixel_crop_rows) auto
    moreover have "nat pos + nat (int j - (pos + bh)) = j - nat bh"
      using p b True by linarith
    ultimately show ?thesis
      using True i j p b unfolding f3_def
      by (simp add: pixel_paste d2 width_crop height_crop replace_px_def)
  next
    case False
    then show ?thesis
      using i j unfolding f3_def
      by (simp add: pixel_paste d2 width_crop height_crop)
  qed
  show ?thesis
    unfolding r using p b by (simp add: p3 p2 p1)
qed

lemma well_formed_mk_image: "well_formed (mk_image w h f)"
  by (simp add: well_formed_def mk_image_def list_all_iff)

lemma well_formed_paste: "well_formed (paste f src pos dst)"
  by (cases pos) (simp add: paste_def well_formed_mk_image)

lemma row_well_formed:
  assumes "well_formed img" and "j < height img"
  shows "pixels img ! j = map (\<lambda>i. pixel img i j) [0..<width img]"
proof -
  have "length (pixels img ! j) = width img"
    using assms by (simp add: well_formed_def list_all_length height_def)
  then show ?thesis
    using map_nth [of "pixels img ! j"] by (simp add: pixel_def)
qed

lemma well_formed_add_info_band: "well_formed (add_info_band L img file_count theme_color)"
  by (simp add: add_info_band_def Let_def well_formed_paste)

lemma size_add_info_band:
  "width (add_info_band L img file_count theme_color) = width img"
  "height (add_info_band L img file_count theme_color) = height img"
  by (simp_all add: add_info_band_def Let_def width_paste height_paste new_image_def
      width_mk_image height_mk_image)

lemma row_add_info_band:
  assumes "j < height img"
  shows "pixels (add_info_band L img file_count theme_color) ! j =
     map (\<lambda>i. pixel (add_info_band L img file_count theme_color) i j) [0..<width img]"
  using row_well_formed [OF well_formed_add_info_band, of j L img file_count theme_color] assms
  by (simp add: size_add_info_band)

text \<open>
  C2. The band renderer returns an image of the same size. The rows above the band are
  those of the input, and the band's rows show the band pasted on a transparent canvas
  (nothing of the input shows through there). The rows below the band are not those of
  the input at the same height: the part of the input from \<open>position\<close> on is moved down
  by the band's height, so the output row \<open>j\<close> is the input row \<open>j - band_height\<close>, and the
  last \<open>band_height\<close> rows of the input are lost. (\<^verbatim>\<open>merge_images\<close> keeps the lower fifth of
  the canvas free for this.) The band's height is a fifth of the image's height, rounded
  down.
\<close>

theorem band_is_inserted:
  fixes img :: "'p image" and L :: "'p pil" and file_count :: int and theme_color :: rgb
  defines "bh \<equiv> band_height_of (int (height img))"
  defines "pos \<equiv> (int (height img) - bh) div 2"
  defines "out \<equiv> add_info_band L img file_count theme_color"
  assumes "well_formed img"
  shows "width out = width img \<and> height out = height img
    \<and> (\<forall>j<height img. int j < pos \<longrightarrow> pixels out ! j = pixels img ! j)
    \<and> (\<forall>j<height img. pos \<le> int j \<and> int j < pos + bh \<longrightarrow>
          pixels out ! j =
            map (\<lambda>i. mask_px L (band_px L (width img, nat bh) (file_count * 3) theme_color i
                                    (nat (int j - pos))) (blank L)) [0..<width img])
    \<and> (\<forall>j<height img. pos + bh \<le> int j \<longrightarrow> pixels out ! j = pixels img ! (j - nat bh))
    \<and> 0 \<le> pos \<and> 0 \<le> bh \<and> pos + bh \<le> int (height img)
    \<and> (int (height img) < 2 ^ 50 \<longrightarrow> bh = int (height img) div 5)"
proof -
  have b: "0 \<le> bh" "bh \<le> int (height img)"
    unfolding bh_def using band_height_bounds [of "int (height img)"] by simp_all
  then have p: "0 \<le> pos" "pos + bh \<le> int (height img)" unfolding pos_def by linarith+
  have above: "pixels out ! j = pixels img ! j" if "j < height img" "int j < pos" for j
  proof -
    have "pixels out ! j = map (\<lambda>i. pixel out i j) [0..<width img]"
      unfolding out_def using that(1) by (rule row_add_info_band)
    also have "\<dots> = map (\<lambda>i. pixel img i j) [0..<width img]"
      using that unfolding out_def
      by (intro map_cong refl) (simp add: pixel_add_info_band flip: bh_def pos_def)
    also have "\<dots> = pixels img ! j"
      using row_well_formed [OF assms(4) that(1)] by simp
    finally show ?thesis .
  qed
  have inside: "pixels out ! j =
      map (\<lambda>i. mask_px L (band_px L (width img, nat bh) (file_count * 3) theme_color i
                             (nat (int j - pos))) (blank L)) [0..<width img]"
    if "j < height img" "pos \<le> int j" "int j < pos + bh" for j
  proof -
    have "pixels out ! j = map (\<lambda>i. pixel out i j) [0..<width img]"
      unfolding out_def using that(1) by (rule row_add_info_band)
    also have "\<dots> = map (\<lambda>i. mask_px L (band_px L (width img, nat bh) (file_count * 3) theme_color i
                             (nat (int j - pos))) (blank L)) [0..<width img]"
      using that unfolding out_def
      by (intro map_cong refl) (simp add: pixel_add_info_band flip: bh_def pos_def)
    finally show ?thesis .
  qed
  have below: "pixels out ! j = pixels img ! (j - nat bh)" if "j < height img" "pos + bh \<le> int j" for j
  proof -
    have l: "j - nat bh < height img" using that(1) by simp
    have "pixels out ! j = map (\<lambda>i. pixel out i j) [0..<width img]"
      unfolding out_def using that(1) by (rule row_add_info_band)
    also have "\<dots> = map (\<lambda>i. pixel img i (j - nat bh)) [0..<width img]"
      using that b unfolding out_def
      by (intro map_cong refl) (simp add: pixel_add_info_band flip: bh_def pos_def)
    also have "\<dots> = pixels img ! (j - nat bh)"
      using row_well_formed [OF assms(4) l] by simp
    finally show ?thesis .
  qed
  have e: "int (height img) < 2 ^ 50 \<longrightarrow> bh = int (height img) div 5"
    unfolding bh_def using band_height_exact [of "int (height img)"] by simp
  show ?thesis
    using above inside below b p e by (simp add: out_def size_add_info_band)
qed

theorem band_is_inserted_witness:
  "well_formed striped
   \<and> height (add_info_band demo_pil striped 1 (255, 0, 0)) = 25
   \<and> pixels (add_info_band demo_pil striped 1 (255, 0, 0)) ! 9 = pixels striped ! 9
   \<and> pixels (add_info_band demo_pil striped 1 (255, 0, 0)) ! 10 = [7, 7, 7, 7, 7]
   \<and> pixels (add_info_band demo_pil striped 1 (255, 0, 0)) ! 14 = [7, 7, 7, 7, 7]
   \<and> pixels (add_info_band demo_pil striped 1 (255, 0, 0)) ! 15 = pixels striped ! 10
   \<and> pixels (add_info_band demo_pil striped 1 (255, 0, 0)) ! 24 = pixels striped ! 19"
proof -
  have wf: "well_formed striped" by code_simp
  have h: "height striped = 25" by code_simp
  have w: "width striped = 5" by code_simp
  have bh: "band_height_of 25 = 5" by code_simp
  have m: "map (\<lambda>i. mask_px demo_pil (band_px demo_pil (5, 5) 3 (255, 0, 0) i j) (blank demo_pil))
      [0..<5] = [7, 7, 7, 7, 7]" for j
    by (simp add: demo_pil_def demo_band_def demo_over_def upt_rec)
  note t = band_is_inserted [OF wf, of demo_pil 1 "(255, 0, 0)", unfolded h w, simplified bh]
  have "height (add_info_band demo_pil striped 1 (255, 0, 0)) = 25"
    using t by simp
  moreover have "pixels (add_info_band demo_pil striped 1 (255, 0, 0)) ! 9 = pixels striped ! 9"
    using t by simp
  moreover have "pixels (add_info_band demo_pil striped 1 (255, 0, 0)) ! 10 = [7, 7, 7, 7, 7]"
    using t m [of 0] by simp
  moreover have "pixels (add_info_band demo_pil striped 1 (255, 0, 0)) ! 14 = [7, 7, 7, 7, 7]"
    using t m [of 4] by simp
  moreover have "pixels (add_info_band demo_pil striped 1 (255, 0, 0)) ! 15 = pixels striped ! 10"
    using t by simp
  moreover have "pixels (add_info_band demo_pil striped 1 (255, 0, 0)) ! 24 = pixels striped ! 19"
    using t by simp
  ultimately show ?thesis using wf by blast
qed

text \<open>
  The claim as written fails on an image of 25 rows: the band takes the rows 10 to 14, and
  the ten rows below it are the rows 10 to 19 of the input, not its rows 15 to 24.
\<close>

theorem rows_below_band_counterexample:
  "band_height_of (int (height striped)) = 5
   \<and> pixels striped = map (replicate 5) [1, 2, 3, 4, 5, 6, 7, 8, 9, 10, 11, 12, 13,
       14, 15, 16, 17, 18, 19, 20, 21, 22, 23, 24, 25]
   \<and> pixels (add_info_band demo_pil striped 1 (255, 0, 0))
       = map (replicate 5) [1, 2, 3, 4, 5, 6, 7, 8, 9, 10, 7, 7, 7, 7, 7, 11, 12, 13,
           14, 15, 16, 17, 18, 19, 20]
   \<and> pixels (add_info_band demo_pil striped 1 (255, 0, 0)) ! 15 \<noteq> pixels striped ! 15"
  by code_simp

section \<open>Properties of the grid composer\<close>

lemma pad_empty: "pad (Suc k) [] g = Inl IndexError"
  by (simp add: choice_def)

lemma pad_nonempty:
  "placed \<noteq> [] \<Longrightarrow>
   \<exists>placed' g'. pad k placed g = Inr (placed', g') \<and> length placed' = length placed + k
      \<and> take (length placed) placed' = placed \<and> set placed' = set placed"
proof (induction k arbitrary: placed g)
  case 0
  then show ?case by simp
next
  case (Suc k)
  define x where "x = placed ! (g 0 mod length placed)"
  have x: "x \<in> set placed" unfolding x_def using Suc.prems by simp
  have c: "choice g placed = Inr (x, \<lambda>i. g (Suc i))"
    using Suc.prems by (simp add: choice_def x_def)
  from Suc.IH [of "placed @ [x]" "\<lambda>i. g (Suc i)"]
  obtain placed' g' where p: "pad k (placed @ [x]) (\<lambda>i. g (Suc i)) = Inr (placed', g')"
    "length placed' = length (placed @ [x]) + k"
    "take (length (placed @ [x])) placed' = placed @ [x]"
    "set placed' = set (placed @ [x])"
    by auto
  have "take (length placed) placed' = take (length placed) (take (length (placed @ [x])) placed')"
    by (simp add: min_def)
  also have "\<dots> = take (length placed) (placed @ [x])"
    by (simp only: p(3))
  also have "\<dots> = placed" by simp
  finally have "take (length placed) placed' = placed" .
  moreover have "set placed' = set placed" using p(4) x by auto
  ultimately show ?case using p(1,2) c by simp
qed

lemma load_all_none:
  "(\<And>path. path \<in> set paths \<Longrightarrow> load L path sz = None) \<Longrightarrow> fst (load_all L sz paths) = []"
  by (induction paths) (auto split: prod.splits)

lemma load_all_length: "length (fst (load_all L sz paths)) \<le> length paths"
  by (induction paths) (auto split: prod.splits option.splits)

text \<open>\<^verbatim>\<open>merge_images\<close> on a list that is not empty, with a size that is not negative.\<close>

lemma merge_images_nonempty:
  assumes "input_paths \<noteq> []" and "0 \<le> image_size"
  shows "merge_images L g input_paths image_size background watermark output_folder theme_color
            include_band =
     (let columns = grid_columns (int (length input_paths));
          rows = grid_rows (int (length input_paths));
          image_width = cell_width image_size columns;
          image_height = cell_height image_size rows include_band
      in case load_all L (image_width, image_height) input_paths of (loaded, evs) \<Rightarrow>
           (case pad (nat (rows * columns - int (length loaded))) loaded g of
              Inl e \<Rightarrow> \<lparr>outcome = Raised e, printed = evs, rng = g\<rparr>
            | Inr (placed, g') \<Rightarrow>
                \<lparr>outcome = Saved output_folder
                   (finish L image_size columns image_width image_height
                      (png_count input_paths) background watermark theme_color
                      include_band placed),
                 printed = evs, rng = g'\<rparr>))"
proof -
  have n: "1 \<le> int (length input_paths)" using assms(1) by (cases input_paths) auto
  from grid_columns_bounds [OF n] grid_rows_positive [OF n]
  have "grid_columns (int (length input_paths)) \<noteq> 0" "grid_rows (int (length input_paths)) \<noteq> 0"
    by auto
  then show ?thesis
    using assms by (simp add: merge_images_def Let_def)
qed

text \<open>
  C6. On the empty list \<^verbatim>\<open>merge_images\<close> prints its message and returns at once: nothing is
  loaded, pasted or saved, and nothing is raised. The loop of the main program then goes
  on with the next folder, with the random source untouched.
\<close>

theorem empty_input_is_skipped:
  "merge_images L g [] image_size background watermark output_folder theme_color include_band
     = \<lparr>outcome = Returned, printed = [NoImagesFound], rng = g\<rparr>
   \<and> (glob folder = [] \<longrightarrow>
        process_folders L glob background watermark output_folder theme_color include_band g
            (folder # folders)
        = \<lparr>outcome = Returned, printed = [NoImagesFound], rng = g\<rparr>
          # process_folders L glob background watermark output_folder theme_color include_band g
              folders)"
  by (simp add: merge_images_def)

theorem empty_input_is_skipped_witness:
  "no_files ''first'' = []
   \<and> map outcome (process_folders demo_pil no_files one_pixel one_pixel ''out'' None False
          first_draws [''first'', ''second''])
     = [Returned, Returned]"
proof -
  have e: "no_files ''first'' = []" "no_files ''second'' = []"
    by (simp_all add: no_files_def)
  have "process_folders demo_pil no_files one_pixel one_pixel ''out'' None False first_draws
          [''first'', ''second'']
      = \<lparr>outcome = Returned, printed = [NoImagesFound], rng = first_draws\<rparr>
        # process_folders demo_pil no_files one_pixel one_pixel ''out'' None False first_draws
            [''second'']"
    using empty_input_is_skipped [of demo_pil first_draws 0 one_pixel one_pixel "''out''" None
        False no_files "''first''" "[''second'']"] e(1)
    by blast
  moreover have "process_folders demo_pil no_files one_pixel one_pixel ''out'' None False
          first_draws [''second'']
      = \<lparr>outcome = Returned, printed = [NoImagesFound], rng = first_draws\<rparr>
        # process_folders demo_pil no_files one_pixel one_pixel ''out'' None False first_draws []"
    using empty_input_is_skipped [of demo_pil first_draws 0 one_pixel one_pixel "''out''" None
        False no_files "''second''" "[]"] e(2)
    by blast
  ultimately show ?thesis using e(1) by simp
qed

text \<open>
  C4. When the list is not empty and every path fails to load, the pool of images is
  empty when the padding loop starts; the grid has at least one cell, so the loop runs,
  and its first \<^verbatim>\<open>random.choice\<close> raises \<^verbatim>\<open>IndexError\<close>. Nothing in \<^verbatim>\<open>merge_images\<close> or in
  the main program catches it.
\<close>

theorem all_loads_failed_raises:
  assumes "input_paths \<noteq> []" and "0 \<le> image_size"
    and "\<And>path sz. path \<in> set input_paths \<Longrightarrow> load L path sz = None"
  shows "outcome (merge_images L g input_paths image_size background watermark output_folder
            theme_color include_band) = Raised IndexError"
proof -
  define columns where "columns = grid_columns (int (length input_paths))"
  define rows where "rows = grid_rows (int (length input_paths))"
  define sz where "sz = (cell_width image_size columns, cell_height image_size rows include_band)"
  have n: "1 \<le> int (length input_paths)" using assms(1) by (cases input_paths) auto
  from grid_columns_bounds [OF n] grid_rows_positive [OF n]
  have "1 \<le> rows" "1 \<le> columns" by (simp_all add: rows_def columns_def)
  then have "1 * 1 \<le> rows * columns" by (intro mult_mono) auto
  then obtain k where k: "nat (rows * columns) = Suc k"
    by (cases "nat (rows * columns)") auto
  have "fst (load_all L sz input_paths) = []"
    using assms(3) by (intro load_all_none) auto
  then obtain evs where l: "load_all L sz input_paths = ([], evs)"
    by (cases "load_all L sz input_paths") auto
  show ?thesis
    unfolding merge_images_nonempty [OF assms(1,2)]
    using l k by (simp add: Let_def choice_def flip: columns_def rows_def sz_def)
qed

theorem all_loads_failed_raises_witness:
  "outcome (merge_images demo_pil first_draws [''bad.png''] 2000 one_pixel one_pixel ''out''
      (Some (255, 0, 0)) True) = Raised IndexError"
proof -
  have a: "[''bad.png''] \<noteq> []" "(0::int) \<le> 2000" by simp_all
  have b: "load demo_pil path sz = None" if "path \<in> set [''bad.png'']" for path sz
    using that by (simp add: demo_pil_def demo_load_def)
  show ?thesis
    by (rule all_loads_failed_raises [OF a b])
qed

lemma cell_of_in_grid:
  assumes "0 < columns" and "int idx < rows * columns"
  shows "0 \<le> fst (cell_of columns idx) \<and> fst (cell_of columns idx) < rows
     \<and> 0 \<le> snd (cell_of columns idx) \<and> snd (cell_of columns idx) < columns
     \<and> int idx = fst (cell_of columns idx) * columns + snd (cell_of columns idx)"
proof -
  have "columns * (int idx div columns) + int idx mod columns = int idx" by simp
  moreover have "0 \<le> int idx mod columns" using assms(1) by simp
  ultimately have "int idx div columns * columns \<le> int idx"
    by (simp only: mult.commute)
  with assms(2) have "int idx div columns * columns < rows * columns" by linarith
  then have "int idx div columns < rows"
    using assms(1) by (simp add: mult_less_cancel_right)
  moreover have "0 \<le> int idx div columns"
    using assms(1) by (simp add: pos_imp_zdiv_nonneg_iff)
  ultimately show ?thesis
    using assms(1) by (simp add: cell_of_def)
qed

lemma cell_of_row_major:
  assumes "0 \<le> r" and "0 \<le> c" and "c < columns"
  shows "cell_of columns (nat (r * columns + c)) = (r, c)"
proof -
  have "0 \<le> r * columns + c" using assms by simp
  then have "int (nat (r * columns + c)) = c + r * columns" by simp
  then show ?thesis
    using assms by (simp add: cell_of_def)
qed

subsection \<open>What the pasting loop leaves on the canvas\<close>

lemma zip_upt_nth: "zip [0..<length xs] xs = map (\<lambda>k. (k, xs ! k)) [0..<length xs]"
  by (rule nth_equalityI) simp_all

lemma paste_grid_upt:
  "paste_grid L columns image_width image_height placed canvas =
     foldl (\<lambda>cv k. paste (mask_px L) (placed ! k)
                      (place columns image_width image_height k (placed ! k)) cv)
       canvas [0..<length placed]"
  by (simp add: paste_grid_def zip_upt_nth foldl_map)

lemma pixel_paste_at:
  assumes "i < width dst" and "j < height dst"
  shows "pixel (paste f src pos dst) i j =
     (if fst pos \<le> int i \<and> int i < fst pos + int (width src)
         \<and> snd pos \<le> int j \<and> int j < snd pos + int (height src)
      then f (pixel src (nat (int i - fst pos)) (nat (int j - snd pos))) (pixel dst i j)
      else pixel dst i j)"
  using assms by (cases pos) (simp add: pixel_paste)

lemma size_foldl_paste:
  "width (foldl (\<lambda>cv k. paste f (src k) (pos k) cv) canvas ks) = width canvas
   \<and> height (foldl (\<lambda>cv k. paste f (src k) (pos k) cv) canvas ks) = height canvas"
  by (induction ks arbitrary: canvas) (simp_all add: width_paste height_paste)

lemma pixel_foldl_paste_outside:
  assumes "i < width canvas" and "j < height canvas"
    and "\<And>k. k \<in> set ks \<Longrightarrow>
           \<not> (fst (pos k) \<le> int i \<and> int i < fst (pos k) + int (width (src k))
              \<and> snd (pos k) \<le> int j \<and> int j < snd (pos k) + int (height (src k)))"
  shows "pixel (foldl (\<lambda>cv k. paste f (src k) (pos k) cv) canvas ks) i j = pixel canvas i j"
  using assms
proof (induction ks arbitrary: canvas)
  case Nil
  then show ?case by simp
next
  case (Cons k ks)
  have n: "\<not> (fst (pos k) \<le> int i \<and> int i < fst (pos k) + int (width (src k))
              \<and> snd (pos k) \<le> int j \<and> int j < snd (pos k) + int (height (src k)))"
    using Cons.prems(3) [of k] by simp
  have p: "pixel (paste f (src k) (pos k) canvas) i j = pixel canvas i j"
    using n Cons.prems(1,2) by (auto simp: pixel_paste_at)
  have "pixel (foldl (\<lambda>cv k. paste f (src k) (pos k) cv) (paste f (src k) (pos k) canvas) ks) i j
      = pixel (paste f (src k) (pos k) canvas) i j"
    using Cons.prems by (intro Cons.IH) (simp_all add: width_paste height_paste)
  with p show ?case by simp
qed

lemma pixel_foldl_paste_once:
  assumes "i < width canvas" and "j < height canvas"
    and "fst (pos k) \<le> int i \<and> int i < fst (pos k) + int (width (src k))
         \<and> snd (pos k) \<le> int j \<and> int j < snd (pos k) + int (height (src k))"
    and "\<And>k'. k' \<in> set ks1 \<union> set ks2 \<Longrightarrow>
           \<not> (fst (pos k') \<le> int i \<and> int i < fst (pos k') + int (width (src k'))
              \<and> snd (pos k') \<le> int j \<and> int j < snd (pos k') + int (height (src k')))"
  shows "pixel (foldl (\<lambda>cv k. paste f (src k) (pos k) cv) canvas (ks1 @ k # ks2)) i j
       = f (pixel (src k) (nat (int i - fst (pos k))) (nat (int j - snd (pos k)))) (pixel canvas i j)"
proof -
  define c1 where "c1 = foldl (\<lambda>cv k. paste f (src k) (pos k) cv) canvas ks1"
  define c2 where "c2 = paste f (src k) (pos k) c1"
  have s1: "width c1 = width canvas" "height c1 = height canvas"
    unfolding c1_def using size_foldl_paste [of f src pos canvas ks1] by simp_all
  have p1: "pixel c1 i j = pixel canvas i j"
    unfolding c1_def using assms(1,2,4) by (intro pixel_foldl_paste_outside) auto
  have "pixel (paste f (src k) (pos k) c1) i j
      = f (pixel (src k) (nat (int i - fst (pos k))) (nat (int j - snd (pos k)))) (pixel c1 i j)"
    using assms(1,2,3) s1 by (simp add: pixel_paste_at)
  then have p2: "pixel c2 i j
      = f (pixel (src k) (nat (int i - fst (pos k))) (nat (int j - snd (pos k)))) (pixel canvas i j)"
    by (simp add: c2_def p1)
  have "pixel (foldl (\<lambda>cv k. paste f (src k) (pos k) cv) c2 ks2) i j = pixel c2 i j"
    using assms(1,2,4) s1 by (intro pixel_foldl_paste_outside) (auto simp: c2_def width_paste height_paste)
  then show ?thesis
    by (simp add: c1_def c2_def p2 [unfolded c2_def c1_def])
qed

lemma centred_offset:
  assumes "(w::int) \<le> cell"
  shows "0 \<le> (cell - w) div 2 \<and> (cell - w) div 2 + w \<le> cell"
  using assms by presburger

text \<open>An image no larger than a cell is pasted inside its cell.\<close>

lemma place_in_cell:
  assumes "int (width img) \<le> image_width" and "int (height img) \<le> image_height"
  shows "border_spacing + snd (cell_of columns idx) * (image_width + image_spacing)
           \<le> fst (place columns image_width image_height idx img)
     \<and> fst (place columns image_width image_height idx img) + int (width img)
           \<le> border_spacing + snd (cell_of columns idx) * (image_width + image_spacing) + image_width
     \<and> border_spacing + fst (cell_of columns idx) * (image_height + image_spacing)
           \<le> snd (place columns image_width image_height idx img)
     \<and> snd (place columns image_width image_height idx img) + int (height img)
           \<le> border_spacing + fst (cell_of columns idx) * (image_height + image_spacing) + image_height"
  using centred_offset [OF assms(1)] centred_offset [OF assms(2)]
  by (cases "cell_of columns idx") (simp add: place_def Let_def)

text \<open>Cells that share a point are the same cell: the slots of a row do not overlap.\<close>

lemma same_slot:
  fixes b w s c1 c2 i :: int
  assumes "0 \<le> w" and "0 \<le> s"
    and "b + c1 * (w + s) \<le> i" and "i < b + c1 * (w + s) + w"
    and "b + c2 * (w + s) \<le> i" and "i < b + c2 * (w + s) + w"
  shows "c1 = c2"
proof (rule ccontr)
  assume "c1 \<noteq> c2"
  then consider "c1 + 1 \<le> c2" | "c2 + 1 \<le> c1" by linarith
  then show False
  proof cases
    case 1
    then have "(c1 + 1) * (w + s) \<le> c2 * (w + s)"
      using assms(1,2) by (intro mult_right_mono) auto
    then have "c1 * (w + s) + w + s \<le> c2 * (w + s)" by (simp add: algebra_simps)
    with assms show False by linarith
  next
    case 2
    then have "(c2 + 1) * (w + s) \<le> c1 * (w + s)"
      using assms(1,2) by (intro mult_right_mono) auto
    then have "c2 * (w + s) + w + s \<le> c1 * (w + s)" by (simp add: algebra_simps)
    with assms show False by linarith
  qed
qed

lemma slot_in_canvas:
  fixes b w s c n u :: int
  assumes "0 \<le> w" and "0 \<le> s" and "0 \<le> c" and "c < n" and "n * w + (n - 1) * s \<le> u"
  shows "0 \<le> c * (w + s) \<and> c * (w + s) + w \<le> u"
proof -
  have "c * (w + s) \<le> (n - 1) * (w + s)"
    using assms by (intro mult_right_mono) auto
  then have "c * (w + s) + w \<le> n * w + (n - 1) * s" by (simp add: algebra_simps)
  moreover have "0 \<le> c * (w + s)" using assms by simp
  ultimately show ?thesis using assms(5) by linarith
qed

lemma cell_width_fits:
  assumes "0 < columns"
  shows "columns * cell_width image_size columns + (columns - 1) * image_spacing
       \<le> image_size - 2 * border_spacing"
proof -
  define a where "a = image_size - 2 * border_spacing - (columns - 1) * image_spacing"
  have "columns * (a div columns) + a mod columns = a" by simp
  moreover have "0 \<le> a mod columns" using assms by simp
  ultimately have "columns * (a div columns) \<le> a" by linarith
  then show ?thesis by (simp add: cell_width_def a_def)
qed

lemma cell_height_fits:
  assumes "0 < rows"
  shows "rows * cell_height image_size rows include_band + (rows - 1) * image_spacing
       \<le> image_size - 2 * border_spacing"
proof -
  define a where "a = image_size - 2 * border_spacing - (rows - 1) * image_spacing"
  have "rows * (a div rows) + a mod rows = a" by simp
  moreover have "0 \<le> a mod rows" using assms by simp
  ultimately have l: "rows * (a div rows) \<le> a" by linarith
  have "cell_height image_size rows include_band \<le> a div rows"
    by (simp add: cell_height_def Let_def a_def)
  then have "rows * cell_height image_size rows include_band \<le> rows * (a div rows)"
    using assms by (intro mult_left_mono) auto
  with l show ?thesis by (simp add: a_def)
qed

text \<open>
  When the grid is full and every image is no larger than a cell, the pasted images do not
  overlap and lie inside the canvas: each pixel of the image with index \<open>idx\<close> is left on
  the canvas at its place in the cell of \<open>idx\<close>, masked onto what the canvas held there.
\<close>

lemma pixel_paste_grid:
  fixes placed :: "'p image list" and canvas :: "'p image" and L :: "'p pil"
    and image_size columns rows :: int and include_band :: bool and idx i j :: nat
  defines "image_width \<equiv> cell_width image_size columns"
  defines "image_height \<equiv> cell_height image_size rows include_band"
  defines "x \<equiv> fst (place columns image_width image_height idx (placed ! idx))"
  defines "y \<equiv> snd (place columns image_width image_height idx (placed ! idx))"
  assumes cpos: "0 < columns" and len: "int (length placed) = rows * columns"
    and fits: "\<And>img. img \<in> set placed \<Longrightarrow>
                 int (width img) \<le> image_width \<and> int (height img) \<le> image_height"
    and idx: "idx < length placed"
    and i: "i < width (placed ! idx)" and j: "j < height (placed ! idx)"
    and canvas: "int (width canvas) = image_size" "int (height canvas) = image_size"
  shows "0 \<le> x \<and> 0 \<le> y \<and> x + int i < image_size \<and> y + int j < image_size
     \<and> pixel (paste_grid L columns image_width image_height placed canvas)
          (nat (x + int i)) (nat (y + int j))
       = mask_px L (pixel (placed ! idx) i j) (pixel canvas (nat (x + int i)) (nat (y + int j)))"
proof -
  define sp where "sp = image_spacing"
  define b where "b = border_spacing"
  have sp0: "0 \<le> sp" and b0: "0 \<le> b"
    by (simp_all add: sp_def b_def image_spacing_def border_spacing_def)
  have fit: "int (width (placed ! k)) \<le> image_width \<and> int (height (placed ! k)) \<le> image_height"
    if "k < length placed" for k
    using fits [of "placed ! k"] that by simp
  have w0: "0 \<le> image_width" and h0: "0 \<le> image_height"
    using fit [OF idx] by linarith+
  have "0 < rows * columns" using len idx by linarith
  then have rpos: "0 < rows" using cpos by (simp add: zero_less_mult_iff)
  have grid: "0 \<le> fst (cell_of columns k) \<and> fst (cell_of columns k) < rows
          \<and> 0 \<le> snd (cell_of columns k) \<and> snd (cell_of columns k) < columns
          \<and> int k = fst (cell_of columns k) * columns + snd (cell_of columns k)"
    if "k < length placed" for k
  proof -
    have "int k < rows * columns" using that len by simp
    with cpos show ?thesis by (rule cell_of_in_grid)
  qed
  have cell: "b + snd (cell_of columns k) * (image_width + sp)
           \<le> fst (place columns image_width image_height k (placed ! k))
     \<and> fst (place columns image_width image_height k (placed ! k)) + int (width (placed ! k))
           \<le> b + snd (cell_of columns k) * (image_width + sp) + image_width
     \<and> b + fst (cell_of columns k) * (image_height + sp)
           \<le> snd (place columns image_width image_height k (placed ! k))
     \<and> snd (place columns image_width image_height k (placed ! k)) + int (height (placed ! k))
           \<le> b + fst (cell_of columns k) * (image_height + sp) + image_height"
    if "k < length placed" for k
    unfolding b_def sp_def using fit [OF that] by (intro place_in_cell) auto
  have cx: "0 \<le> snd (cell_of columns idx) * (image_width + sp)
      \<and> snd (cell_of columns idx) * (image_width + sp) + image_width \<le> image_size - 2 * b"
    using w0 sp0 grid [OF idx] cell_width_fits [OF cpos, of image_size]
    unfolding sp_def b_def image_width_def by (intro slot_in_canvas [where n = columns]) auto
  have cy: "0 \<le> fst (cell_of columns idx) * (image_height + sp)
      \<and> fst (cell_of columns idx) * (image_height + sp) + image_height \<le> image_size - 2 * b"
    using h0 sp0 grid [OF idx] cell_height_fits [OF rpos, of image_size include_band]
    unfolding sp_def b_def image_height_def by (intro slot_in_canvas [where n = rows]) auto
  have x0: "0 \<le> x" and y0: "0 \<le> y"
    and xi: "x + int i < image_size" and yj: "y + int j < image_size"
    using cell [OF idx] cx cy b0 i j unfolding x_def y_def by linarith+
  define I where "I = nat (x + int i)"
  define J where "J = nat (y + int j)"
  have I: "int I = x + int i" and J: "int J = y + int j"
    using x0 y0 by (simp_all add: I_def J_def)
  have inside: "I < width canvas" "J < height canvas"
    using canvas xi yj I J by linarith+
  have covers: "fst (place columns image_width image_height idx (placed ! idx)) \<le> int I
      \<and> int I < fst (place columns image_width image_height idx (placed ! idx))
                   + int (width (placed ! idx))
      \<and> snd (place columns image_width image_height idx (placed ! idx)) \<le> int J
      \<and> int J < snd (place columns image_width image_height idx (placed ! idx))
                   + int (height (placed ! idx))"
    using I J i j by (simp add: x_def y_def)
  have others: "\<not> (fst (place columns image_width image_height k (placed ! k)) \<le> int I
      \<and> int I < fst (place columns image_width image_height k (placed ! k))
                   + int (width (placed ! k))
      \<and> snd (place columns image_width image_height k (placed ! k)) \<le> int J
      \<and> int J < snd (place columns image_width image_height k (placed ! k))
                   + int (height (placed ! k)))"
    if k: "k \<in> set [0..<idx] \<union> set [Suc idx..<length placed]" for k
  proof
    assume c: "fst (place columns image_width image_height k (placed ! k)) \<le> int I
      \<and> int I < fst (place columns image_width image_height k (placed ! k))
                   + int (width (placed ! k))
      \<and> snd (place columns image_width image_height k (placed ! k)) \<le> int J
      \<and> int J < snd (place columns image_width image_height k (placed ! k))
                   + int (height (placed ! k))"
    have kl: "k < length placed" and ne: "k \<noteq> idx" using k idx by auto
    have "snd (cell_of columns k) = snd (cell_of columns idx)"
      using w0 sp0 cell [OF kl] cell [OF idx] c covers
      by (intro same_slot [where b = b and w = image_width and s = sp and i = "int I"]) linarith+
    moreover have "fst (cell_of columns k) = fst (cell_of columns idx)"
      using h0 sp0 cell [OF kl] cell [OF idx] c covers
      by (intro same_slot [where b = b and w = image_height and s = sp and i = "int J"]) linarith+
    ultimately have "int k = int idx" using grid [OF kl] grid [OF idx] by simp
    with ne show False by simp
  qed
  have split: "[0..<length placed] = [0..<idx] @ idx # [Suc idx..<length placed]"
    using idx upt_add_eq_append [of 0 idx "length placed - idx"] by (simp add: upt_conv_Cons)
  have "pixel (paste_grid L columns image_width image_height placed canvas) I J
      = mask_px L (pixel (placed ! idx)
            (nat (int I - fst (place columns image_width image_height idx (placed ! idx))))
            (nat (int J - snd (place columns image_width image_height idx (placed ! idx)))))
          (pixel canvas I J)"
    unfolding paste_grid_upt split
    using inside covers others
    by (rule pixel_foldl_paste_once
        [where src = "\<lambda>k. placed ! k"
           and pos = "\<lambda>k. place columns image_width image_height k (placed ! k)"])
  moreover have "nat (int I - fst (place columns image_width image_height idx (placed ! idx))) = i"
    "nat (int J - snd (place columns image_width image_height idx (placed ! idx))) = j"
    using I J by (simp_all add: x_def y_def)
  ultimately show ?thesis
    using x0 y0 xi yj by (simp add: I_def J_def)
qed

lemma place_coordinates:
  "place columns image_width image_height idx img =
     (border_spacing + (int idx mod columns) * (image_width + image_spacing)
        + (image_width - int (width img)) div 2,
      border_spacing + (int idx div columns) * (image_height + image_spacing)
        + (image_height - int (height img)) div 2)"
  by (simp add: place_def cell_of_def Let_def)

lemma pixel_new_image: "i < w \<Longrightarrow> j < h \<Longrightarrow> pixel (new_image b w h) i j = b"
  by (simp add: new_image_def pixel_mk_image)

lemma finish_unfolded:
  "finish L image_size columns image_width image_height pngs background watermark theme_color
      include_band placed =
     alpha_composite (over_px L)
       (case theme_color of
          None \<Rightarrow>
            alpha_composite (over_px L) (resize L background (nat image_size, nat image_size))
              (paste_grid L columns image_width image_height placed
                 (new_image (blank L) (nat image_size) (nat image_size)))
        | Some colour \<Rightarrow>
            if include_band
            then add_info_band L
                   (alpha_composite (over_px L)
                      (resize L background (nat image_size, nat image_size))
                      (paste_grid L columns image_width image_height placed
                         (new_image (blank L) (nat image_size) (nat image_size))))
                   pngs colour
            else alpha_composite (over_px L)
                   (resize L background (nat image_size, nat image_size))
                   (paste_grid L columns image_width image_height placed
                      (new_image (blank L) (nat image_size) (nat image_size))))
       (resize L watermark (nat image_size, nat image_size))"
  by (simp add: finish_def Let_def split: option.splits)

text \<open>
  C5. When the list is not empty, at least one image loads and fewer images load than the
  grid has cells, \<^verbatim>\<open>merge_images\<close> does not raise: the padding loop appends copies of images
  already in the pool until there are exactly \<open>rows * columns\<close> of them, the loaded images
  staying in front. The image with index \<open>idx\<close> is pasted at the corner of the cell in row
  \<open>idx div columns\<close> and column \<open>idx mod columns\<close>, plus the centring offset, so every cell of
  the grid receives exactly one image, row by row. When the loaded images are no larger
  than a cell (which is what \<^verbatim>\<open>thumbnail\<close> is for), the pasted images lie inside the canvas
  and do not overlap: every pixel of every one of the \<open>rows * columns\<close> images is on the
  grid canvas at its place, masked onto the transparent canvas. The saved image is that
  grid laid over the background, with the band added if a colour is given and the band
  is asked for, and the watermark laid over it.
\<close>

theorem padding_fills_grid:
  fixes L :: "'p pil" and input_paths :: "string list" and image_size :: int
    and include_band :: bool
  defines "columns \<equiv> grid_columns (int (length input_paths))"
  defines "rows \<equiv> grid_rows (int (length input_paths))"
  defines "image_width \<equiv> cell_width image_size columns"
  defines "image_height \<equiv> cell_height image_size rows include_band"
  defines "loaded \<equiv> fst (load_all L (image_width, image_height) input_paths)"
  defines "sz \<equiv> (nat image_size, nat image_size)"
  assumes "input_paths \<noteq> []" and "0 \<le> image_size" and "loaded \<noteq> []"
    and "int (length loaded) < rows * columns"
  shows "\<exists>placed g'.
      pad (nat (rows * columns - int (length loaded))) loaded g = Inr (placed, g')
    \<and> int (length placed) = rows * columns
    \<and> take (length loaded) placed = loaded
    \<and> set placed = set loaded
    \<and> outcome (merge_images L g input_paths image_size background watermark output_folder
          theme_color include_band)
        = Saved output_folder
            (finish L image_size columns image_width image_height (png_count input_paths)
               background watermark theme_color include_band placed)
    \<and> outcome (merge_images L g input_paths image_size background watermark output_folder
          theme_color include_band)
        = Saved output_folder
            (alpha_composite (over_px L)
               (case theme_color of
                  None \<Rightarrow>
                    alpha_composite (over_px L) (resize L background sz)
                      (paste_grid L columns image_width image_height placed
                         (new_image (blank L) (nat image_size) (nat image_size)))
                | Some colour \<Rightarrow>
                    if include_band
                    then add_info_band L
                           (alpha_composite (over_px L) (resize L background sz)
                              (paste_grid L columns image_width image_height placed
                                 (new_image (blank L) (nat image_size) (nat image_size))))
                           (png_count input_paths) colour
                    else alpha_composite (over_px L) (resize L background sz)
                           (paste_grid L columns image_width image_height placed
                              (new_image (blank L) (nat image_size) (nat image_size))))
               (resize L watermark sz))
    \<and> (\<forall>idx<length placed.
          0 \<le> fst (cell_of columns idx) \<and> fst (cell_of columns idx) < rows
          \<and> 0 \<le> snd (cell_of columns idx) \<and> snd (cell_of columns idx) < columns
          \<and> int idx = fst (cell_of columns idx) * columns + snd (cell_of columns idx))
    \<and> (\<forall>r c. 0 \<le> r \<and> r < rows \<and> 0 \<le> c \<and> c < columns \<longrightarrow>
          nat (r * columns + c) < length placed
          \<and> cell_of columns (nat (r * columns + c)) = (r, c))
    \<and> paste_grid L columns image_width image_height placed
          (new_image (blank L) (nat image_size) (nat image_size))
        = foldl (\<lambda>cv idx. paste (mask_px L) (placed ! idx)
                    (border_spacing + (int idx mod columns) * (image_width + image_spacing)
                       + (image_width - int (width (placed ! idx))) div 2,
                     border_spacing + (int idx div columns) * (image_height + image_spacing)
                       + (image_height - int (height (placed ! idx))) div 2) cv)
            (new_image (blank L) (nat image_size) (nat image_size)) [0..<length placed]
    \<and> ((\<forall>img\<in>set loaded. int (width img) \<le> image_width \<and> int (height img) \<le> image_height)
         \<longrightarrow>
         (\<forall>idx<length placed. \<forall>i<width (placed ! idx). \<forall>j<height (placed ! idx).
            0 \<le> fst (place columns image_width image_height idx (placed ! idx))
          \<and> 0 \<le> snd (place columns image_width image_height idx (placed ! idx))
          \<and> fst (place columns image_width image_height idx (placed ! idx)) + int i < image_size
          \<and> snd (place columns image_width image_height idx (placed ! idx)) + int j < image_size
          \<and> pixel (paste_grid L columns image_width image_height placed
                      (new_image (blank L) (nat image_size) (nat image_size)))
                (nat (fst (place columns image_width image_height idx (placed ! idx)) + int i))
                (nat (snd (place columns image_width image_height idx (placed ! idx)) + int j))
              = mask_px L (pixel (placed ! idx) i j) (blank L)))"
proof -
  have n: "1 \<le> int (length input_paths)" using assms(7) by (cases input_paths) auto
  from grid_columns_bounds [OF n] have cpos: "0 < columns" by (simp add: columns_def)
  obtain evs where l: "load_all L (image_width, image_height) input_paths = (loaded, evs)"
    by (cases "load_all L (image_width, image_height) input_paths") (simp add: loaded_def)
  from pad_nonempty [OF assms(9), of "nat (rows * columns - int (length loaded))" g]
  obtain placed g' where p:
    "pad (nat (rows * columns - int (length loaded))) loaded g = Inr (placed, g')"
    "length placed = length loaded + nat (rows * columns - int (length loaded))"
    "take (length loaded) placed = loaded" "set placed = set loaded"
    by blast
  have len: "int (length placed) = rows * columns"
    using p(2) assms(10) by simp
  define canvas where "canvas = new_image (blank L) (nat image_size) (nat image_size)"
  have cs: "int (width canvas) = image_size" "int (height canvas) = image_size"
    using assms(8) by (simp_all add: canvas_def new_image_def width_mk_image height_mk_image)
  have cn: "width canvas = nat image_size" "height canvas = nat image_size"
    by (simp_all add: canvas_def new_image_def width_mk_image height_mk_image)
  have out: "outcome (merge_images L g input_paths image_size background watermark output_folder
          theme_color include_band)
        = Saved output_folder
            (finish L image_size columns image_width image_height (png_count input_paths)
               background watermark theme_color include_band placed)"
    unfolding merge_images_nonempty [OF assms(7,8)]
    using l p(1)
    by (simp add: Let_def flip: columns_def rows_def image_width_def image_height_def)
  have out': "outcome (merge_images L g input_paths image_size background watermark output_folder
          theme_color include_band)
        = Saved output_folder
            (alpha_composite (over_px L)
               (case theme_color of
                  None \<Rightarrow>
                    alpha_composite (over_px L) (resize L background sz)
                      (paste_grid L columns image_width image_height placed canvas)
                | Some colour \<Rightarrow>
                    if include_band
                    then add_info_band L
                           (alpha_composite (over_px L) (resize L background sz)
                              (paste_grid L columns image_width image_height placed canvas))
                           (png_count input_paths) colour
                    else alpha_composite (over_px L) (resize L background sz)
                           (paste_grid L columns image_width image_height placed canvas))
               (resize L watermark sz))"
    unfolding out finish_unfolded sz_def canvas_def ..
  have cells: "0 \<le> fst (cell_of columns idx) \<and> fst (cell_of columns idx) < rows
          \<and> 0 \<le> snd (cell_of columns idx) \<and> snd (cell_of columns idx) < columns
          \<and> int idx = fst (cell_of columns idx) * columns + snd (cell_of columns idx)"
    if "idx < length placed" for idx
  proof -
    have "int idx < rows * columns" using that len by simp
    with cpos show ?thesis by (rule cell_of_in_grid)
  qed
  have filled: "nat (r * columns + c) < length placed
          \<and> cell_of columns (nat (r * columns + c)) = (r, c)"
    if "0 \<le> r \<and> r < rows \<and> 0 \<le> c \<and> c < columns" for r c
  proof -
    have "r + 1 \<le> rows" using that by simp
    then have "(r + 1) * columns \<le> rows * columns"
      using cpos by (intro mult_right_mono) auto
    then have "r * columns + c < rows * columns"
      using that by (simp add: algebra_simps)
    moreover have "0 \<le> r * columns + c" using that cpos by simp
    ultimately have "nat (r * columns + c) < length placed"
      using len by linarith
    moreover have "cell_of columns (nat (r * columns + c)) = (r, c)"
      using that by (intro cell_of_row_major) auto
    ultimately show ?thesis by simp
  qed
  have loop: "paste_grid L columns image_width image_height placed canvas
        = foldl (\<lambda>cv idx. paste (mask_px L) (placed ! idx)
                    (border_spacing + (int idx mod columns) * (image_width + image_spacing)
                       + (image_width - int (width (placed ! idx))) div 2,
                     border_spacing + (int idx div columns) * (image_height + image_spacing)
                       + (image_height - int (height (placed ! idx))) div 2) cv)
            canvas [0..<length placed]"
    by (simp only: paste_grid_upt place_coordinates)
  have px: "0 \<le> fst (place columns image_width image_height idx (placed ! idx))
          \<and> 0 \<le> snd (place columns image_width image_height idx (placed ! idx))
          \<and> fst (place columns image_width image_height idx (placed ! idx)) + int i < image_size
          \<and> snd (place columns image_width image_height idx (placed ! idx)) + int j < image_size
          \<and> pixel (paste_grid L columns image_width image_height placed canvas)
                (nat (fst (place columns image_width image_height idx (placed ! idx)) + int i))
                (nat (snd (place columns image_width image_height idx (placed ! idx)) + int j))
              = mask_px L (pixel (placed ! idx) i j) (blank L)"
    if fits: "\<forall>img\<in>set loaded. int (width img) \<le> image_width \<and> int (height img) \<le> image_height"
      and idx: "idx < length placed" and i: "i < width (placed ! idx)"
      and j: "j < height (placed ! idx)" for idx i j
  proof -
    have f: "int (width img) \<le> cell_width image_size columns
        \<and> int (height img) \<le> cell_height image_size rows include_band"
      if "img \<in> set placed" for img
      using fits that p(4) by (simp add: image_width_def image_height_def)
    note t = pixel_paste_grid [OF cpos len f idx i j cs, of L,
        folded image_width_def image_height_def]
    have "nat (fst (place columns image_width image_height idx (placed ! idx)) + int i)
        < nat image_size"
      "nat (snd (place columns image_width image_height idx (placed ! idx)) + int j)
        < nat image_size"
      using t by linarith+
    then have "pixel canvas
        (nat (fst (place columns image_width image_height idx (placed ! idx)) + int i))
        (nat (snd (place columns image_width image_height idx (placed ! idx)) + int j)) = blank L"
      unfolding canvas_def by (rule pixel_new_image)
    with t show ?thesis by simp
  qed
  show ?thesis
    using p(1,3,4) len out out' cells filled loop px unfolding canvas_def by blast
qed

theorem padding_fills_grid_witness:
  "\<exists>placed g'.
      pad 2 (fst (load_all demo_pil (1, 1) [''a.png'', ''bad.png'', ''bb.png''])) first_draws
        = Inr (placed, g')
    \<and> length placed = 4
    \<and> pixel (paste_grid demo_pil 2 1 1 placed (new_image 0 32 32)) 10 10 = 5
    \<and> pixel (paste_grid demo_pil 2 1 1 placed (new_image 0 32 32)) 21 10 = 6
    \<and> pixel (paste_grid demo_pil 2 1 1 placed (new_image 0 32 32)) 10 21 \<in> {5, 6}
    \<and> pixel (paste_grid demo_pil 2 1 1 placed (new_image 0 32 32)) 21 21 \<in> {5, 6}
    \<and> (\<exists>img. outcome (merge_images demo_pil first_draws [''a.png'', ''bad.png'', ''bb.png'']
          32 one_pixel one_pixel ''out'' None False) = Saved ''out'' img)"
proof -
  define five :: "nat image" where "five = \<lparr>width = 1, pixels = [[5]]\<rparr>"
  define six :: "nat image" where "six = \<lparr>width = 1, pixels = [[6]]\<rparr>"
  have c: "grid_columns (int (length [''a.png'', ''bad.png'', ''bb.png''])) = 2"
    by (simp add: grid_columns_def)
  have r: "grid_rows (int (length [''a.png'', ''bad.png'', ''bb.png''])) = 2"
    using grid_rows_exact [of 3] c by simp
  have w: "cell_width 32 2 = 1" "cell_height 32 2 False = 1"
    by (simp_all add: cell_width_def cell_height_def border_spacing_def image_spacing_def)
  have ld: "fst (load_all demo_pil (1, 1) [''a.png'', ''bad.png'', ''bb.png'']) = [five, six]"
    by (simp add: demo_pil_def demo_load_def five_def six_def)
  have d: "width five = 1" "height five = 1" "pixel five 0 0 = 5"
    "width six = 1" "height six = 1" "pixel six 0 0 = 6"
    by (simp_all add: five_def six_def height_def pixel_def)
  have m: "blank demo_pil = 0" "mask_px demo_pil = demo_over"
    by (simp_all add: demo_pil_def)
  have a: "[''a.png'', ''bad.png'', ''bb.png''] \<noteq> []" "(0::int) \<le> 32" "[five, six] \<noteq> []"
    "int (length [five, six]) < 2 * 2" by simp_all
  note t = padding_fills_grid [where L = demo_pil
      and input_paths = "[''a.png'', ''bad.png'', ''bb.png'']" and image_size = 32
      and include_band = False and g = first_draws and background = one_pixel
      and watermark = one_pixel and output_folder = "''out''" and theme_color = None,
      unfolded c r w ld, OF a]
  then obtain placed g' where p:
    "pad (nat (2 * 2 - int (length [five, six]))) [five, six] first_draws = Inr (placed, g')"
    "int (length placed) = 2 * 2"
    "take (length [five, six]) placed = [five, six]"
    "set placed = set [five, six]"
    "outcome (merge_images demo_pil first_draws [''a.png'', ''bad.png'', ''bb.png''] 32 one_pixel
        one_pixel ''out'' None False)
      = Saved ''out'' (finish demo_pil 32 2 1 1 (png_count [''a.png'', ''bad.png'', ''bb.png''])
          one_pixel one_pixel None False placed)"
    "(\<forall>img\<in>set [five, six]. int (width img) \<le> 1 \<and> int (height img) \<le> 1) \<longrightarrow>
       (\<forall>idx<length placed. \<forall>i<width (placed ! idx). \<forall>j<height (placed ! idx).
            0 \<le> fst (place 2 1 1 idx (placed ! idx))
          \<and> 0 \<le> snd (place 2 1 1 idx (placed ! idx))
          \<and> fst (place 2 1 1 idx (placed ! idx)) + int i < 32
          \<and> snd (place 2 1 1 idx (placed ! idx)) + int j < 32
          \<and> pixel (paste_grid demo_pil 2 1 1 placed
                      (new_image (blank demo_pil) (nat 32) (nat 32)))
                (nat (fst (place 2 1 1 idx (placed ! idx)) + int i))
                (nat (snd (place 2 1 1 idx (placed ! idx)) + int j))
              = mask_px demo_pil (pixel (placed ! idx) i j) (blank demo_pil))"
    by blast
  have len: "length placed = 4" using p(2) by simp
  have n2: "nat (2 * 2 - int (length [five, six])) = 2" by simp
  have t2: "take 2 placed = [five, six]" using p(3) by (simp add: numeral_2_eq_2)
  have "placed ! 0 = take 2 placed ! 0" by simp
  then have p0: "placed ! 0 = five" unfolding t2 by simp
  have "placed ! 1 = take 2 placed ! 1" by simp
  then have p1: "placed ! 1 = six" unfolding t2 by simp
  have "placed ! 2 \<in> set placed" "placed ! 3 \<in> set placed" using len by simp_all
  then have p2: "placed ! 2 = five \<or> placed ! 2 = six"
    and p3: "placed ! 3 = five \<or> placed ! 3 = six" using p(4) by simp_all
  have one: "width (placed ! idx) = 1 \<and> height (placed ! idx) = 1
      \<and> (pixel (placed ! idx) 0 0 = 5 \<or> pixel (placed ! idx) 0 0 = 6)" if "idx < 4" for idx
  proof -
    have "placed ! idx \<in> set placed" using that len by simp
    then have "placed ! idx = five \<or> placed ! idx = six" using p(4) by simp
    then show ?thesis using d by auto
  qed
  have px: "pixel (paste_grid demo_pil 2 1 1 placed (new_image 0 32 32))
        (nat (fst (place 2 1 1 idx (placed ! idx)))) (nat (snd (place 2 1 1 idx (placed ! idx))))
      = demo_over (pixel (placed ! idx) 0 0) 0" if "idx < 4" for idx
  proof -
    have f: "\<forall>img\<in>set [five, six]. int (width img) \<le> 1 \<and> int (height img) \<le> 1"
      using d by simp
    have s: "idx < length placed" "0 < width (placed ! idx)" "0 < height (placed ! idx)"
      using that len one [OF that] by simp_all
    from p(6) f s
    have "pixel (paste_grid demo_pil 2 1 1 placed
                      (new_image (blank demo_pil) (nat 32) (nat 32)))
                (nat (fst (place 2 1 1 idx (placed ! idx)) + int 0))
                (nat (snd (place 2 1 1 idx (placed ! idx)) + int 0))
              = mask_px demo_pil (pixel (placed ! idx) 0 0) (blank demo_pil)"
      by blast
    then show ?thesis by (simp add: m)
  qed
  have pl: "place 2 1 1 0 (placed ! 0) = (10, 10)" "place 2 1 1 1 (placed ! 1) = (21, 10)"
    "place 2 1 1 2 (placed ! 2) = (10, 21)" "place 2 1 1 3 (placed ! 3) = (21, 21)"
    using one [of 0] one [of 1] one [of 2] one [of 3]
    by (simp_all add: place_coordinates border_spacing_def image_spacing_def)
  have "pixel (paste_grid demo_pil 2 1 1 placed (new_image 0 32 32)) 10 10 = 5"
    using px [of 0] pl(1) p0 d by (simp add: demo_over_def)
  moreover have "pixel (paste_grid demo_pil 2 1 1 placed (new_image 0 32 32)) 21 10 = 6"
    using px [of 1] pl(2) p1 d by (simp add: demo_over_def)
  moreover have "pixel (paste_grid demo_pil 2 1 1 placed (new_image 0 32 32)) 10 21 \<in> {5, 6}"
    using px [of 2] pl(3) one [of 2] by (auto simp: demo_over_def)
  moreover have "pixel (paste_grid demo_pil 2 1 1 placed (new_image 0 32 32)) 21 21 \<in> {5, 6}"
    using px [of 3] pl(4) one [of 3] by (auto simp: demo_over_def)
  moreover have "pad 2 (fst (load_all demo_pil (1, 1) [''a.png'', ''bad.png'', ''bb.png'']))
      first_draws = Inr (placed, g')"
    using p(1) unfolding ld n2 .
  ultimately show ?thesis using len p(5) by blast
qed

text \<open>
  C9. When the number of images exactly fills the grid and every one of them loads, the
  padding loop has no round to run, and nothing else in \<^verbatim>\<open>merge_images\<close> consults the
  random source: two runs on the same inputs save the same image and print the same
  messages, whatever the random sources \<open>g\<close> and \<open>g'\<close> are.
\<close>

theorem full_grid_is_deterministic:
  fixes L :: "'p pil" and input_paths :: "string list" and image_size :: int
    and include_band :: bool
  defines "columns \<equiv> grid_columns (int (length input_paths))"
  defines "rows \<equiv> grid_rows (int (length input_paths))"
  defines "image_width \<equiv> cell_width image_size columns"
  defines "image_height \<equiv> cell_height image_size rows include_band"
  defines "loaded \<equiv> fst (load_all L (image_width, image_height) input_paths)"
  assumes "int (length input_paths) = rows * columns"
    and "length loaded = length input_paths"
  shows "outcome (merge_images L g input_paths image_size background watermark output_folder
            theme_color include_band)
       = outcome (merge_images L g' input_paths image_size background watermark output_folder
            theme_color include_band)
     \<and> printed (merge_images L g input_paths image_size background watermark output_folder
            theme_color include_band)
       = printed (merge_images L g' input_paths image_size background watermark output_folder
            theme_color include_band)"
proof -
  obtain evs where l: "load_all L (image_width, image_height) input_paths = (loaded, evs)"
    by (cases "load_all L (image_width, image_height) input_paths") (simp add: loaded_def)
  have z: "nat (rows * columns - int (length loaded)) = 0"
    using assms(6,7) by simp
  show ?thesis
    using l z
    by (simp add: merge_images_def Let_def
        flip: columns_def rows_def image_width_def image_height_def)
qed

theorem full_grid_is_deterministic_witness:
  "outcome (merge_images demo_pil first_draws [''a.png'', ''bb.png'', ''ccc.png'', ''dddd.png'']
      2000 one_pixel one_pixel ''out'' None False)
   = outcome (merge_images demo_pil other_draws [''a.png'', ''bb.png'', ''ccc.png'', ''dddd.png'']
      2000 one_pixel one_pixel ''out'' None False)"
proof -
  have c: "grid_columns (int (length [''a.png'', ''bb.png'', ''ccc.png'', ''dddd.png''])) = 2"
    by (simp add: grid_columns_def)
  have r: "grid_rows (int (length [''a.png'', ''bb.png'', ''ccc.png'', ''dddd.png''])) = 2"
    using grid_rows_exact [of 4] c by simp
  have a: "int (length [''a.png'', ''bb.png'', ''ccc.png'', ''dddd.png''])
      = grid_rows (int (length [''a.png'', ''bb.png'', ''ccc.png'', ''dddd.png'']))
        * grid_columns (int (length [''a.png'', ''bb.png'', ''ccc.png'', ''dddd.png'']))"
    unfolding c r by simp
  have b: "length (fst (load_all demo_pil
        (cell_width 2000 (grid_columns (int (length [''a.png'', ''bb.png'', ''ccc.png'', ''dddd.png'']))),
         cell_height 2000 (grid_rows (int (length [''a.png'', ''bb.png'', ''ccc.png'', ''dddd.png''])))
           False)
        [''a.png'', ''bb.png'', ''ccc.png'', ''dddd.png'']))
      = length [''a.png'', ''bb.png'', ''ccc.png'', ''dddd.png'']"
    by (simp add: demo_pil_def demo_load_def)
  from full_grid_is_deterministic [OF a b] show ?thesis by blast
qed

lemma cell_height_band:
  "cell_height image_size rows True =
     min (cell_height image_size rows False)
       ((image_size - band_height_of image_size - 2 * border_spacing
           - (rows - 1) * image_spacing) div rows)"
  by (simp add: cell_height_def Let_def)

text \<open>
  C10. With the band flag set and no colour, the cell height is still the one computed
  under \<^verbatim>\<open>if include_band:\<close>, the minimum of the plain cell height and the height left when
  a fifth of the canvas is taken away; yet the band is not added, since
  \<^verbatim>\<open>include_band and theme_color\<close> is false: the saved image is the grid over the background
  with the watermark over it. The missing colour raises nothing.
\<close>

theorem band_flag_without_colour:
  fixes L :: "'p pil" and input_paths :: "string list" and image_size :: int
  defines "columns \<equiv> grid_columns (int (length input_paths))"
  defines "rows \<equiv> grid_rows (int (length input_paths))"
  defines "image_width \<equiv> cell_width image_size columns"
  defines "image_height \<equiv> cell_height image_size rows True"
  defines "loaded \<equiv> fst (load_all L (image_width, image_height) input_paths)"
  defines "sz \<equiv> (nat image_size, nat image_size)"
  assumes "input_paths \<noteq> []" and "0 \<le> image_size" and "loaded \<noteq> []"
  shows "\<exists>placed g'.
      pad (nat (rows * columns - int (length loaded))) loaded g = Inr (placed, g')
    \<and> outcome (merge_images L g input_paths image_size background watermark output_folder
          None True)
        = Saved output_folder
            (alpha_composite (over_px L)
               (alpha_composite (over_px L) (resize L background sz)
                  (paste_grid L columns image_width image_height placed
                     (new_image (blank L) (nat image_size) (nat image_size))))
               (resize L watermark sz))
    \<and> image_height =
        min (cell_height image_size rows False)
          ((image_size - band_height_of image_size - 2 * border_spacing
              - (rows - 1) * image_spacing) div rows)
    \<and> image_height \<le> cell_height image_size rows False"
proof -
  obtain evs where l: "load_all L (image_width, image_height) input_paths = (loaded, evs)"
    by (cases "load_all L (image_width, image_height) input_paths") (simp add: loaded_def)
  from pad_nonempty [OF assms(9), of "nat (rows * columns - int (length loaded))" g]
  obtain placed g' where p:
    "pad (nat (rows * columns - int (length loaded))) loaded g = Inr (placed, g')"
    by blast
  have out: "outcome (merge_images L g input_paths image_size background watermark output_folder
          None True)
        = Saved output_folder
            (alpha_composite (over_px L)
               (alpha_composite (over_px L) (resize L background sz)
                  (paste_grid L columns image_width image_height placed
                     (new_image (blank L) (nat image_size) (nat image_size))))
               (resize L watermark sz))"
    unfolding merge_images_nonempty [OF assms(7,8)]
    using l p
    by (simp add: Let_def finish_def sz_def
        flip: columns_def rows_def image_width_def image_height_def)
  have h: "image_height =
        min (cell_height image_size rows False)
          ((image_size - band_height_of image_size - 2 * border_spacing
              - (rows - 1) * image_spacing) div rows)"
    unfolding image_height_def by (rule cell_height_band)
  then have "image_height \<le> cell_height image_size rows False" by simp
  with p out h show ?thesis by blast
qed

theorem band_flag_without_colour_witness:
  "cell_height 2000 1 False = 1980 \<and> cell_height 2000 1 True = 1580
   \<and> (\<exists>img. outcome (merge_images demo_pil first_draws [''a.png''] 2000 one_pixel one_pixel
          ''out'' None True) = Saved ''out'' img)"
proof -
  have c: "grid_columns (int (length [''a.png''])) = 2"
    by (simp add: grid_columns_def)
  have "\<lceil>1 / 2 :: real\<rceil> = 1" by (rule ceiling_unique) simp_all
  then have r: "grid_rows (int (length [''a.png''])) = 1"
    using grid_rows_exact [of 1] c by simp
  have b: "band_height_of 2000 = 400"
    using band_height_exact [of 2000] by simp
  have h: "cell_height 2000 1 False = 1980" "cell_height 2000 1 True = 1580"
    by (simp_all add: cell_height_def Let_def b border_spacing_def image_spacing_def)
  have a: "[''a.png''] \<noteq> []" "(0::int) \<le> 2000" by simp_all
  have l: "fst (load_all demo_pil
        (cell_width 2000 (grid_columns (int (length [''a.png'']))),
         cell_height 2000 (grid_rows (int (length [''a.png'']))) True) [''a.png'']) \<noteq> []"
    by (simp add: demo_pil_def demo_load_def)
  from band_flag_without_colour [OF a l, of first_draws one_pixel one_pixel "''out''"]
  have "\<exists>img. outcome (merge_images demo_pil first_draws [''a.png''] 2000 one_pixel one_pixel
          ''out'' None True) = Saved ''out'' img"
    by blast
  with h show ?thesis by blast
qed

end
